theory Spec2Isabelle
  imports Main "HOL-Library.Word"
begin

unbundle bit_operations_syntax

section \<open>Machine types\<close>

type_synonym byte = "8 word"
type_synonym uint16 = "16 word"
type_synonym uint32 = "32 word"
type_synonym uint64 = "64 word"

text \<open>A Go byte string literal: the bytes of the characters.\<close>

definition bytes_of :: "string \<Rightarrow> byte list" where
  "bytes_of s = map (\<lambda>c. of_char c) s"

section \<open>internal/ipv4_bitset/bitset.go\<close>

subsection \<open>The two-level bitmap\<close>

text \<open>
  \<^verbatim>\<open>shard16{bits []uint64}\<close> is the list of its words; the directory
  \<^verbatim>\<open>shards [1 << 16]atomic.Pointer[shard16]\<close> maps each of the 65536 slots to
  \<open>None\<close> (nil) or to the leaf it points to. A pointer to a leaf is the slot that holds
  it: a slot, once filled, is never replaced, and leaves are reachable through their slot only.
\<close>

type_synonym shard16 = "uint64 list"

record Bitset =
  shards :: "uint16 \<Rightarrow> shard16 option"
  unique :: uint64

definition New :: Bitset where
  "New = \<lparr>shards = (\<lambda>_. None), unique = 0\<rparr>"

text \<open>
  An atomic compare-and-swap on a cell holding \<open>cur\<close>: the answer and the cell's new
  content. The operations below are run one call after another (no interleaving), so the
  state a call loads is the state its compare-and-swap meets.
\<close>

definition CompareAndSwap :: "'a \<Rightarrow> 'a \<Rightarrow> 'a \<Rightarrow> bool \<times> 'a" where
  "CompareAndSwap cur old new = (if cur = old then (True, new) else (False, cur))"

text \<open>
  \<^verbatim>\<open>getOrCreate\<close> returns the leaf of slot \<open>hi\<close>, installing a zeroed leaf of 1024
  words when the slot is nil. The last line of the source reloads the slot after a lost
  compare-and-swap; the slot is not nil then.
\<close>

definition getOrCreate :: "Bitset \<Rightarrow> uint16 \<Rightarrow> shard16 \<times> Bitset" where
  "getOrCreate b hi =
     (case shards b hi of
        Some p \<Rightarrow> (p, b)
      | None \<Rightarrow>
          (let n = replicate 1024 (0 :: uint64);
               (ok, cell) = CompareAndSwap (shards b hi) None (Some n);
               b' = b\<lparr>shards := (shards b)(hi := cell)\<rparr>
           in if ok then (n, b') else (the (shards b' hi), b')))"

text \<open>
  The retry loop of \<^verbatim>\<open>SetIfNew\<close> on the words of the leaf: load the word, give up
  when the bit is set, otherwise try to swap in the word with the bit set and start again
  when the swap fails. Every leaf has 1024 words and \<open>idx\<close> is below 1024, so the
  index is in range (see \<open>wf_Bitset\<close> below).
\<close>

function SetIfNew_loop :: "shard16 \<Rightarrow> nat \<Rightarrow> uint64 \<Rightarrow> bool \<times> shard16" where
  "SetIfNew_loop bits idx msk =
     (let old = bits ! idx in
      if old AND msk \<noteq> 0 then (False, bits)
      else if fst (CompareAndSwap (bits ! idx) old (old OR msk))
           then (True, bits[idx := snd (CompareAndSwap (bits ! idx) old (old OR msk))])
           else SetIfNew_loop (bits[idx := snd (CompareAndSwap (bits ! idx) old (old OR msk))]) idx msk)"
  by pat_completeness auto
termination
proof (relation "{}")
  show "wf {}" by simp
next
  fix bits :: shard16 and idx :: nat and msk old :: uint64
  assume "old = bits ! idx"
    and "\<not> fst (CompareAndSwap (bits ! idx) old (old OR msk))"
  then show "((bits[idx := snd (CompareAndSwap (bits ! idx) old (old OR msk))], idx, msk), bits, idx, msk) \<in> {}"
    by (simp add: CompareAndSwap_def)
qed

declare SetIfNew_loop.simps [simp del]

text \<open>
  \<^verbatim>\<open>SetIfNew\<close>: set the bit of \<open>u32\<close>; true when this call set it. The loop writes
  through the pointer \<open>sh\<close>, that is into the leaf held by slot \<open>hi\<close>.
\<close>

definition SetIfNew :: "Bitset \<Rightarrow> uint32 \<Rightarrow> bool \<times> Bitset" where
  "SetIfNew b u32 =
     (let hi = (ucast (drop_bit 16 u32) :: uint16);
          lo = u32 AND 0xFFFF;
          (sh, b1) = getOrCreate b hi;
          idx = drop_bit 6 lo;
          msk = push_bit (unat (lo AND 63)) (1 :: uint64);
          (r, sh') = SetIfNew_loop sh (unat idx) msk
      in (r, b1\<lparr>shards := (shards b1)(hi := Some sh')\<rparr>))"

definition AddUnique :: "Bitset \<Rightarrow> uint64 \<Rightarrow> Bitset" where
  "AddUnique b n = (if n \<noteq> 0 then b\<lparr>unique := unique b + n\<rparr> else b)"

definition GetUniqueCount :: "Bitset \<Rightarrow> uint64" where
  "GetUniqueCount b = unique b"

subsection \<open>The address parser\<close>

text \<open>
  The loop of \<^verbatim>\<open>IPv4ByteToUint32\<close> over the bytes still to read, with the locals
  \<open>acc\<close>, \<open>part\<close> and \<open>dots\<close>; the empty list is the code after the loop.
  \<open>c - 0x30\<close> is the byte subtraction \<^verbatim>\<open>c - '0'\<close>, which wraps.
\<close>

fun parse_loop :: "byte list \<Rightarrow> uint32 \<Rightarrow> uint32 \<Rightarrow> uint32 \<Rightarrow> uint32 \<times> bool" where
  "parse_loop [] acc part dots =
     (if dots \<noteq> 3 then (0, False) else (push_bit 8 acc OR part, True))"
| "parse_loop (c # cs) acc part dots =
     (let d = c - 0x30 in
      if d \<le> 9 then
        (let part' = part * 10 + ucast d in
         if part' > 255 then (0, False) else parse_loop cs acc part' dots)
      else if c = 0x2E then
        (if dots \<ge> 3 then (0, False)
         else parse_loop cs (push_bit 8 acc OR part) 0 (dots + 1))
      else (0, False))"

definition IPv4ByteToUint32 :: "byte list \<Rightarrow> uint32 \<times> bool" where
  "IPv4ByteToUint32 sb =
     (let n = length sb in
      if n < 7 \<or> n > 15 then (0, False) else parse_loop sb 0 0 0)"

section \<open>internal/file_processor/fp.go\<close>

subsection \<open>Errors, the file, the context\<close>

text \<open>
  The errors the package can return: \<^verbatim>\<open>context.Canceled\<close>, \<^verbatim>\<open>io.EOF\<close>,
  \<^verbatim>\<open>bufio.ErrBufferFull\<close>, the error of \<^verbatim>\<open>ReadAt\<close> at a negative offset, and the
  two run-time panics of \<^verbatim>\<open>splitToShards\<close> (division by zero, \<^verbatim>\<open>make\<close> with a
  negative length).
\<close>

datatype error = Canceled | EOF | ErrBufferFull | ErrNegativeOffset | PanicDivide | PanicMakeslice

record shard =
  Start :: int
  End :: int

type_synonym shards = "shard list"

text \<open>
  \<^verbatim>\<open>Progress\<close>: the counter \<open>done\<close> that \<^verbatim>\<open>Add\<close> increments (the ticker
  goroutine of \<^verbatim>\<open>Run\<close> only reads it and logs).
\<close>

record Progress =
  pdone :: int
  plast :: int

definition NewProgress :: Progress where
  "NewProgress = \<lparr>pdone = 0, plast = 0\<rparr>"

definition Add :: "Progress \<Rightarrow> int \<Rightarrow> Progress" where
  "Add p n = p\<lparr>pdone := pdone p + n\<rparr>"

text \<open>
  \<^verbatim>\<open>FileProcessor\<close>: the opened file is its content, the logger is left out.
\<close>

record FileProcessor =
  file_data :: "byte list"
  bitset :: Bitset
  th :: int
  progress :: "Progress option"

definition New_fp :: "byte list \<Rightarrow> Bitset \<Rightarrow> int \<Rightarrow> FileProcessor" where
  "New_fp f bs n = \<lparr>file_data = f, bitset = bs, th = n, progress = Some NewProgress\<rparr>"

text \<open>
  A context is the number of further calls of \<^verbatim>\<open>ctx.Err()\<close> that still answer nil:
  \<open>Some 0\<close> is a cancelled context, \<open>Some k\<close> one that is cancelled from outside
  after \<open>k\<close> more checks, \<open>None\<close> one that is never cancelled.
\<close>

type_synonym Context = "nat option"

definition Err :: "Context \<Rightarrow> error option" where
  "Err ctx = (if ctx = Some 0 then Some Canceled else None)"

definition tick :: "Context \<Rightarrow> Context" where
  "tick ctx = map_option (\<lambda>k. k - 1) ctx"

subsection \<open>Library calls\<close>

text \<open>
  \<^verbatim>\<open>(*os.File).ReadAt(buf, off)\<close> with \<open>len(buf) = n\<close>: the bytes read and the
  error, which is not nil whenever fewer than \<open>n\<close> bytes were read.
\<close>

definition ReadAt :: "byte list \<Rightarrow> nat \<Rightarrow> int \<Rightarrow> byte list \<times> error option" where
  "ReadAt f n off =
     (if off < 0 then ([], Some ErrNegativeOffset)
      else (let bs = take n (drop (nat off) f)
            in (bs, if length bs < n then Some EOF else None)))"

text \<open>\<^verbatim>\<open>bytes.IndexByte\<close>: the index of the first \<open>c\<close>, or -1.\<close>

fun IndexByte :: "byte list \<Rightarrow> byte \<Rightarrow> int" where
  "IndexByte [] c = -1"
| "IndexByte (b # bs) c =
     (if b = c then 0 else (let i = IndexByte bs c in if i < 0 then -1 else i + 1))"

text \<open>
  \<^verbatim>\<open>io.NewSectionReader(f, off, n)\<close>: the bytes a reader of the section delivers
  before end of file, for an offset that is not negative (the planner makes no other). The
  library sets the limit of the section to \<open>off + n\<close> when \<open>off \<le> maxint64 - n\<close> and to
  \<open>maxint64\<close> otherwise. For \<open>n \<ge> 0\<close> the section is the \<open>n\<close> bytes from \<open>off\<close>; for
  \<open>n < 0\<close> the 64-bit difference \<open>maxint64 - n\<close> wraps around to a negative number, the
  limit is \<open>maxint64\<close>, and the section runs to the end of the file.
\<close>

definition NewSectionReader :: "byte list \<Rightarrow> int \<Rightarrow> int \<Rightarrow> byte list" where
  "NewSectionReader f off n =
     (if n < 0 then drop (nat off) f else take (nat n) (drop (nat off) f))"

text \<open>
  \<^verbatim>\<open>(*bufio.Reader).ReadSlice(delim)\<close> on a reader with a buffer of \<open>bufsize\<close> bytes
  whose source still delivers \<open>rest\<close>: the line up to and including the first
  delimiter when it is among the next \<open>bufsize\<close> bytes; the full buffer and
  \<^verbatim>\<open>ErrBufferFull\<close> when the buffer fills first; what is left and \<^verbatim>\<open>io.EOF\<close> when
  the source ends first. The second component is what the source still delivers afterwards.
\<close>

definition ReadSlice :: "nat \<Rightarrow> byte list \<Rightarrow> byte \<Rightarrow> (byte list \<times> error option) \<times> byte list" where
  "ReadSlice bufsize rest delim =
     (let i = IndexByte (take bufsize rest) delim in
      if i \<ge> 0 then ((take (nat i + 1) rest, None), drop (nat i + 1) rest)
      else if length rest \<ge> bufsize then ((take bufsize rest, Some ErrBufferFull), drop bufsize rest)
      else ((rest, Some EOF), []))"

subsection \<open>The shard planner\<close>

text \<open>The loop of \<^verbatim>\<open>moveStartToNewline\<close>, with its 64 KB buffer.\<close>

function moveStartToNewline_loop :: "FileProcessor \<Rightarrow> shard \<Rightarrow> int \<Rightarrow> error + shard" where
  "moveStartToNewline_loop fp s off =
     (if off \<ge> End s then Inr \<lparr>Start = End s, End = End s\<rparr>
      else
        (let r = ReadAt (file_data fp) 65536 off;
             n = int (length (fst r))
         in if n = 0 \<and> snd r \<noteq> None then Inl (the (snd r))
            else
              (let idx = IndexByte (fst r) 0x0A
               in if idx \<ge> 0 then Inr \<lparr>Start = off + idx + 1, End = End s\<rparr>
                  else moveStartToNewline_loop fp s (off + n))))"
  by pat_completeness auto
termination
proof (relation "measure (\<lambda>(fp, s, off). nat (End s - off))")
  show "wf (measure (\<lambda>(fp, s, off). nat (End s - off)))" by simp
next
  fix fp :: FileProcessor and s :: shard and off :: int and r n idx
  assume a: "\<not> End s \<le> off" "r = ReadAt (file_data fp) 65536 off" "n = int (length (fst r))"
    "\<not> (n = 0 \<and> snd r \<noteq> None)"
  have "n \<noteq> 0"
  proof
    assume "n = 0"
    with a(2,3) have "snd r \<noteq> None"
      by (simp add: ReadAt_def Let_def split: if_splits)
    with a(4) \<open>n = 0\<close> show False by simp
  qed
  with a(3) have "0 < n" by simp
  with a(1) show "((fp, s, off + n), fp, s, off) \<in> measure (\<lambda>(fp, s, off). nat (End s - off))"
    by simp
qed

declare moveStartToNewline_loop.simps [simp del]

definition moveStartToNewline :: "FileProcessor \<Rightarrow> shard \<Rightarrow> error + shard" where
  "moveStartToNewline fp s =
     (if Start s = 0 then Inr s else moveStartToNewline_loop fp s (Start s))"

text \<open>Go's integer division, which truncates towards zero.\<close>

definition quot :: "int \<Rightarrow> int \<Rightarrow> int" where
  "quot a b = sgn a * sgn b * (\<bar>a\<bar> div \<bar>b\<bar>)"

text \<open>
  The loop of \<^verbatim>\<open>splitToShards\<close> from index \<open>i\<close> on; \<open>shs\<close> is the slice made
  before the loop.
\<close>

function splitToShards_loop ::
  "FileProcessor \<Rightarrow> int \<Rightarrow> int \<Rightarrow> int \<Rightarrow> int \<Rightarrow> int \<Rightarrow> shards \<Rightarrow> error + shards" where
  "splitToShards_loop fp fsize part n i start shs =
     (if i < n then
        (let end0 = start + part;
             end1 = (if i = n - 1 \<or> end0 > fsize then fsize else end0);
             cur = \<lparr>Start = start, End = end1\<rparr>
         in if i > 0 then
              (case moveStartToNewline fp cur of
                 Inl err \<Rightarrow> Inl err
               | Inr aligned \<Rightarrow>
                   splitToShards_loop fp fsize part n (i + 1) end1
                     ((shs[nat (i - 1) := (shs ! nat (i - 1))\<lparr>End := Start aligned\<rparr>])
                        [nat i := aligned]))
            else splitToShards_loop fp fsize part n (i + 1) end1 (shs[nat i := cur]))
      else Inr shs)"
  by pat_completeness auto
termination
  by (relation "measure (\<lambda>(fp, fsize, part, n, i, start, shs). nat (n - i))") auto

declare splitToShards_loop.simps [simp del]

definition splitToShards :: "FileProcessor \<Rightarrow> int \<Rightarrow> int \<Rightarrow> error + shards" where
  "splitToShards fp fsize n =
     (if fsize \<le> 0 then Inr []
      else
        (let n1 = (if n > fsize then 1 else n)
         in if n1 = 0 then Inl PanicDivide
            else
              (let part0 = quot fsize n1;
                   part = (if part0 = 0 then fsize else part0);
                   n2 = (if part0 = 0 then 1 else n1)
               in if n2 < 0 then Inl PanicMakeslice
                  else splitToShards_loop fp fsize part n2 0 0
                         (replicate (nat n2) \<lparr>Start = 0, End = 0\<rparr>))))"

subsection \<open>The shard scanner\<close>

text \<open>
  \<^verbatim>\<open>trimCRLF\<close> drops every trailing \<^verbatim>\<open>\n\<close> and \<^verbatim>\<open>\r\<close> of a line, one byte per turn of
  its loop; the slice gets shorter at each turn, which bounds the loop.
\<close>

function trimCRLF :: "byte list \<Rightarrow> byte list" where
  "trimCRLF b =
     (if length b > 0 then
        (let c = b ! (length b - 1)
         in if c = 0x0A \<or> c = 0x0D then trimCRLF (take (length b - 1) b) else b)
      else b)"
  by pat_completeness auto
termination
  by (relation "measure length") auto

declare trimCRLF.simps [simp del]

text \<open>
  The closure \<^verbatim>\<open>flushProgress\<close> of \<^verbatim>\<open>processShard\<close>: it reads and resets the local
  \<open>local\<close> and adds to the progress sink.
\<close>

definition flushProgress :: "int \<Rightarrow> FileProcessor \<Rightarrow> int \<times> FileProcessor" where
  "flushProgress local fp =
     (case progress fp of
        Some p \<Rightarrow> if local \<noteq> 0 then (0, fp\<lparr>progress := Some (Add p local)\<rparr>) else (local, fp)
      | None \<Rightarrow> (local, fp))"

definition bufio_size :: nat where
  "bufio_size = 2097152"

definition flushEvery :: int where
  "flushEvery = 262144"

text \<open>
  The loop of \<^verbatim>\<open>processShard\<close>: \<open>rest\<close> is what the buffered section reader still
  delivers, \<open>local\<close> and \<open>localUniq\<close> are the two local counters. The result is the
  error returned, the context after the checks made, and the locals and the processor as the
  deferred function finds them.
\<close>

function processShard_loop ::
  "Context \<Rightarrow> byte list \<Rightarrow> int \<Rightarrow> uint64 \<Rightarrow> FileProcessor
     \<Rightarrow> error option \<times> Context \<times> int \<times> uint64 \<times> FileProcessor" where
  "processShard_loop ctx rest local localUniq fp =
     (if Err ctx \<noteq> None then (Err ctx, ctx, local, localUniq, fp)
      else
        (let r = ReadSlice bufio_size rest 0x0A;
             line = fst (fst r);
             err = snd (fst r);
             rest' = snd r
         in if err = Some EOF then (None, tick ctx, local, localUniq, fp)
            else if err \<noteq> None then (err, tick ctx, local, localUniq, fp)
            else if length line > 0 then
              (let local1 = local + int (length line);
                   fl = (if local1 \<ge> flushEvery then flushProgress local1 fp else (local1, fp));
                   p = IPv4ByteToUint32 (trimCRLF line)
               in if snd p then
                    (let sn = SetIfNew (bitset (snd fl)) (fst p)
                     in processShard_loop (tick ctx) rest' (fst fl)
                          (if fst sn then localUniq + 1 else localUniq)
                          ((snd fl)\<lparr>bitset := snd sn\<rparr>))
                  else processShard_loop (tick ctx) rest' (fst fl) localUniq (snd fl))
            else processShard_loop (tick ctx) rest' local localUniq fp))"
  by pat_completeness auto
termination
  by (relation "measure (\<lambda>(ctx, rest, local, localUniq, fp). length rest)")
    (auto simp: ReadSlice_def Let_def split: if_splits)

declare processShard_loop.simps [simp del]

text \<open>
  \<^verbatim>\<open>processShard\<close>: the loop over the section \<open>[Start, End)\<close> of the file, then
  the deferred function, which adds the local count of new addresses and flushes the
  progress.
\<close>

definition processShard ::
  "Context \<Rightarrow> FileProcessor \<Rightarrow> shard \<Rightarrow> error option \<times> Context \<times> FileProcessor" where
  "processShard ctx fp s =
     (let r = NewSectionReader (file_data fp) (Start s) (End s - Start s);
          (err, ctx', local, localUniq, fp1) = processShard_loop ctx r 0 0 fp;
          fp2 = (if localUniq > 0 then fp1\<lparr>bitset := AddUnique (bitset fp1) localUniq\<rparr> else fp1)
      in (err, ctx', snd (flushProgress local fp2)))"

subsection \<open>The parallel driver\<close>

text \<open>
  The scanners that \<^verbatim>\<open>ProcessFile\<close> starts through the error group, run one after the
  other in the order of the plan: one of the schedules of the goroutines. \<open>first\<close> is
  the first error a scanner returned, which \<^verbatim>\<open>g.Wait()\<close> returns; the group cancels
  its context at that error.
\<close>

fun run_shards ::
  "Context \<Rightarrow> FileProcessor \<Rightarrow> shards \<Rightarrow> error option \<Rightarrow> error option \<times> FileProcessor" where
  "run_shards ctx fp [] first = (first, fp)"
| "run_shards ctx fp (s # ss) first =
     (let (err, ctx', fp') = processShard ctx fp s
      in run_shards (if err \<noteq> None then Some 0 else ctx') fp' ss
           (if first = None then err else first))"

text \<open>\<^verbatim>\<open>ProcessFile(ctx, fi)\<close>, with \<open>fi.Size()\<close> as \<open>fsize\<close>.\<close>

definition ProcessFile :: "Context \<Rightarrow> FileProcessor \<Rightarrow> int \<Rightarrow> error option \<times> FileProcessor" where
  "ProcessFile ctx fp fsize =
     (if fsize \<le> 0 then (None, fp)
      else
        (case splitToShards fp fsize (th fp) of
           Inl err \<Rightarrow> (Some err, fp)
         | Inr shs \<Rightarrow> run_shards ctx fp shs None))"

definition UniqueCount :: "FileProcessor \<Rightarrow> uint64" where
  "UniqueCount fp = GetUniqueCount (bitset fp)"

section \<open>Specification vocabulary\<close>

subsection \<open>The bit of an address\<close>

text \<open>
  The slot, the word index and the mask that \<^verbatim>\<open>SetIfNew\<close> computes for an address, and
  the bit they select: the bit is 0 when the slot is nil.
\<close>

definition hi_of :: "uint32 \<Rightarrow> uint16" where
  "hi_of u32 = ucast (drop_bit 16 u32)"

definition idx_of :: "uint32 \<Rightarrow> nat" where
  "idx_of u32 = unat (drop_bit 6 (u32 AND 0xFFFF))"

definition msk_of :: "uint32 \<Rightarrow> uint64" where
  "msk_of u32 = push_bit (unat ((u32 AND 0xFFFF) AND 63)) 1"

definition bit_of :: "Bitset \<Rightarrow> uint32 \<Rightarrow> bool" where
  "bit_of b u32 =
     (case shards b (hi_of u32) of
        None \<Rightarrow> False
      | Some p \<Rightarrow> (p ! idx_of u32) AND msk_of u32 \<noteq> 0)"

text \<open>
  Every leaf is made by \<^verbatim>\<open>getOrCreate\<close> with 1024 words and is never resized: the
  invariant of the sets the package can build.
\<close>

definition wf_Bitset :: "Bitset \<Rightarrow> bool" where
  "wf_Bitset b = (\<forall>hi p. shards b hi = Some p \<longrightarrow> length p = 1024)"

text \<open>The leaf of a slot as a reader sees it: a nil slot reads as a zeroed leaf.\<close>

definition leaf_of :: "Bitset \<Rightarrow> uint16 \<Rightarrow> shard16" where
  "leaf_of b hi = (case shards b hi of Some p \<Rightarrow> p | None \<Rightarrow> replicate 1024 0)"

subsection \<open>Sequences of calls on one set\<close>

text \<open>A sequence of \<^verbatim>\<open>SetIfNew\<close> calls: the answers in order, and the final set.\<close>

fun SetIfNew_seq :: "Bitset \<Rightarrow> uint32 list \<Rightarrow> bool list \<times> Bitset" where
  "SetIfNew_seq b [] = ([], b)"
| "SetIfNew_seq b (x # xs) =
     (let r = SetIfNew b x; rs = SetIfNew_seq (snd r) xs
      in (fst r # fst rs, snd rs))"

text \<open>A call of one of the two mutators of the set.\<close>

datatype call = CallSetIfNew uint32 | CallAddUnique uint64

fun do_call :: "Bitset \<Rightarrow> call \<Rightarrow> Bitset" where
  "do_call b (CallSetIfNew x) = snd (SetIfNew b x)"
| "do_call b (CallAddUnique n) = AddUnique b n"

fun do_calls :: "Bitset \<Rightarrow> call list \<Rightarrow> Bitset" where
  "do_calls b [] = b"
| "do_calls b (c # cs) = do_calls (do_call b c) cs"

text \<open>The sum of the amounts a sequence of calls adds to the counter.\<close>

fun added :: "call list \<Rightarrow> nat" where
  "added [] = 0"
| "added (CallSetIfNew x # cs) = added cs"
| "added (CallAddUnique n # cs) = unat n + added cs"

subsection \<open>Decimal notation\<close>

text \<open>
  The decimal digits of a number without leading zeros, as \<^verbatim>\<open>fmt.Sprintf("%d", n)\<close>
  writes them, and a dotted quad of four components.
\<close>

fun decimal :: "nat \<Rightarrow> byte list" where
  "decimal n = (if n < 10 then [0x30 + of_nat n] else decimal (n div 10) @ [0x30 + of_nat (n mod 10)])"

declare decimal.simps [simp del]

definition zeros :: "nat \<Rightarrow> byte list" where
  "zeros k = replicate k 0x30"

definition dotted :: "byte list \<Rightarrow> byte list \<Rightarrow> byte list \<Rightarrow> byte list \<Rightarrow> byte list" where
  "dotted a b c d = a @ [0x2E] @ b @ [0x2E] @ c @ [0x2E] @ d"

definition u32 :: "nat \<Rightarrow> nat \<Rightarrow> nat \<Rightarrow> nat \<Rightarrow> uint32" where
  "u32 a b c d = push_bit 24 (of_nat a) OR push_bit 16 (of_nat b) OR push_bit 8 (of_nat c) OR of_nat d"

subsection \<open>The plan\<close>

text \<open>
  What the search of \<^verbatim>\<open>moveStartToNewline\<close> amounts to. It reads blocks of 64 KiB from the
  start of the shard for as long as the offset of the block is below the end of the shard;
  \<open>reach\<close> is the end of the last block. \<open>aligned\<close> starts one byte past the first
  newline at or after the start when that newline lies before \<open>reach\<close>, and is the empty
  shard at the end otherwise. \<open>naive\<close> is shard \<open>j\<close> as first cut, \<open>boundary\<close> the
  aligned start of shard \<open>j\<close>, and \<open>plan\<close> the shards between consecutive boundaries.
\<close>

definition reach :: "shard \<Rightarrow> int" where
  "reach s = Start s + 65536 * ((End s - Start s + 65535) div 65536)"

definition aligned :: "byte list \<Rightarrow> shard \<Rightarrow> shard" where
  "aligned f s =
     (let k = IndexByte (drop (nat (Start s)) f) 0x0A
      in if 0 \<le> k \<and> Start s + k < reach s
         then \<lparr>Start = Start s + k + 1, End = End s\<rparr>
         else \<lparr>Start = End s, End = End s\<rparr>)"

definition naive :: "int \<Rightarrow> int \<Rightarrow> int \<Rightarrow> int \<Rightarrow> shard" where
  "naive fsize part n j = \<lparr>Start = j * part, End = (if j = n - 1 then fsize else (j + 1) * part)\<rparr>"

definition boundary :: "byte list \<Rightarrow> int \<Rightarrow> int \<Rightarrow> nat \<Rightarrow> int" where
  "boundary f part n j =
     (if j = 0 then 0
      else if n \<le> int j then int (length f)
      else Start (aligned f (naive (int (length f)) part n (int j))))"

definition plan :: "byte list \<Rightarrow> int \<Rightarrow> shards" where
  "plan f n =
     (let n' = (if n > int (length f) then 1 else n);
          part = int (length f) div n'
      in map (\<lambda>j. \<lparr>Start = boundary f part n' j, End = boundary f part n' (Suc j)\<rparr>) [0..<nat n'])"

subsection \<open>Lines and addresses\<close>

text \<open>
  What a run is expected to count. \<open>complete_lines\<close> are the lines of a byte string, each
  with its newline; bytes after the last newline belong to no line. \<open>line_addr\<close> is the
  address a line stands for, if any, and \<open>addrs\<close> the set of addresses of the lines.
  \<open>members\<close> is the set of addresses whose bit is 1. \<open>short_lines m\<close> says that from
  every position a newline follows within \<open>m\<close> bytes. \<open>sect\<close> is the part of the file a
  scanner of a shard reads, \<open>scanned\<close> what a scan leaves of the processor, \<open>is_cut\<close> a
  position at the start of a line, and \<open>cut_at\<close> the boundaries of the plan when lines
  are short.
\<close>

fun lines_from :: "byte list \<Rightarrow> byte list \<Rightarrow> byte list list" where
  "lines_from cur [] = []"
| "lines_from cur (c # cs) =
     (if c = 0x0A then (cur @ [c]) # lines_from [] cs else lines_from (cur @ [c]) cs)"

definition complete_lines :: "byte list \<Rightarrow> byte list list" where
  "complete_lines bs = lines_from [] bs"

definition line_addr :: "byte list \<Rightarrow> uint32 option" where
  "line_addr l = (let p = IPv4ByteToUint32 (trimCRLF l) in if snd p then Some (fst p) else None)"

definition addrs :: "byte list \<Rightarrow> uint32 set" where
  "addrs bs = {a. \<exists>l \<in> set (complete_lines bs). line_addr l = Some a}"

definition members :: "Bitset \<Rightarrow> uint32 set" where
  "members b = {x. bit_of b x}"

definition short_lines :: "nat \<Rightarrow> byte list \<Rightarrow> bool" where
  "short_lines m bs = (\<forall>p < length bs. 0x0A \<in> set (take m (drop p bs)))"

definition scanned :: "FileProcessor \<Rightarrow> uint32 set \<Rightarrow> FileProcessor \<Rightarrow> bool" where
  "scanned fp A fp' =
     (members (bitset fp') = members (bitset fp) \<union> A \<and> wf_Bitset (bitset fp')
      \<and> file_data fp' = file_data fp \<and> th fp' = th fp)"

definition sect :: "byte list \<Rightarrow> shard \<Rightarrow> byte list" where
  "sect f s = NewSectionReader f (Start s) (End s - Start s)"

definition addrs_of :: "byte list \<Rightarrow> shards \<Rightarrow> uint32 set" where
  "addrs_of f shs = (\<Union>s \<in> set shs. addrs (sect f s))"

definition is_cut :: "byte list \<Rightarrow> nat \<Rightarrow> bool" where
  "is_cut f b = (b \<le> length f \<and> (take b f = [] \<or> last (take b f) = 0x0A))"

text \<open>The position just past the first newline at or after \<open>p\<close>.\<close>

definition nl_after :: "byte list \<Rightarrow> nat \<Rightarrow> nat" where
  "nl_after f p = p + nat (IndexByte (drop p f) 0x0A) + 1"

definition cut_at :: "byte list \<Rightarrow> int \<Rightarrow> nat \<Rightarrow> nat" where
  "cut_at f n j =
     (let n' = (if n > int (length f) then 1 else n);
          part = int (length f) div n'
      in if j = 0 then 0
         else if nat n' \<le> j then length f
         else nl_after f (j * nat part))"

subsection \<open>Scenarios\<close>

text \<open>The inputs of the scenarios S1 and S4 of the specification.\<close>

definition S1_input :: "byte list" where
  "S1_input = bytes_of (''1.1.1.1'' @ [CHR 0x0A] @ ''2.2.2.2'' @ [CHR 0x0D, CHR 0x0A]
     @ ''garbage'' @ [CHR 0x0A] @ ''1.1.1.1'' @ [CHR 0x0A] @ ''255.255.255.255'' @ [CHR 0x0A])"

definition S4_input :: "byte list" where
  "S4_input = concat (replicate 5000 (bytes_of (''123.45.67.89'' @ [CHR 0x0A])))"

text \<open>A line of 2 MiB of the letter \<open>a\<close>, and its newline.\<close>

definition long_line :: "byte list" where
  "long_line = replicate 2097152 0x61 @ [0x0A]"

section \<open>Properties of the membership set\<close>

subsection \<open>Slot, word and mask of an address\<close>

lemma SetIfNew_loop_eq:
  "SetIfNew_loop bits idx msk =
     (if bits ! idx AND msk \<noteq> 0 then (False, bits) else (True, bits[idx := bits ! idx OR msk]))"
  by (subst SetIfNew_loop.simps) (simp add: CompareAndSwap_def Let_def)

lemma and_ffff: "(x :: uint32) AND 0xFFFF = take_bit 16 x"
  by (simp add: take_bit_eq_mask mask_eq_exp_minus_1)

lemma and_63: "(x :: uint32) AND 63 = take_bit 6 x"
  by (simp add: take_bit_eq_mask mask_eq_exp_minus_1)

lemma idx_of_alt: "idx_of x = unat (take_bit 10 (drop_bit 6 x))"
  by (simp add: idx_of_def and_ffff drop_bit_take_bit)

lemma idx_of_less: "idx_of x < 1024"
proof -
  have "unat (take_bit 10 (drop_bit 6 x)) < 2 ^ 10"
    unfolding unsigned_take_bit_eq by (rule take_bit_nat_less_exp)
  then show ?thesis by (simp add: idx_of_alt)
qed

lemma pos_alt: "(x AND 0xFFFF) AND 63 = take_bit 6 (x :: uint32)"
  by (simp add: and_ffff and_63)

lemma pos_less: "unat (take_bit 6 (x :: uint32)) < 64"
proof -
  have "unat (take_bit 6 x) < 2 ^ 6"
    unfolding unsigned_take_bit_eq by (rule take_bit_nat_less_exp)
  then show ?thesis by simp
qed

lemma msk_of_alt: "msk_of x = 2 ^ unat (take_bit 6 x)"
  by (simp add: msk_of_def pos_alt push_bit_eq_mult)

lemma msk_of_nz: "msk_of x \<noteq> 0"
  using pos_less [of x] by (simp add: msk_of_alt exp_eq_zero_iff)

lemma pow2_and: "i < 64 \<Longrightarrow> j < 64 \<Longrightarrow> ((2 :: uint64) ^ i AND 2 ^ j = 0) = (i \<noteq> j)"
  by (auto simp: bit_eq_iff bit_simps)

lemma addr_eqI:
  assumes h: "hi_of x = hi_of y" and i: "idx_of x = idx_of y"
    and p: "take_bit 6 x = take_bit 6 y"
  shows "x = y"
proof (rule bit_eqI)
  fix n
  assume "possible_bit TYPE(uint32) n"
  then have n: "n < 32" by (simp add: possible_bit_def)
  have i': "take_bit 10 (drop_bit 6 x) = take_bit 10 (drop_bit 6 y)"
    using i by (simp add: idx_of_alt word_unat_eq_iff)
  have h': "drop_bit 16 x = drop_bit 16 y"
  proof (rule bit_eqI)
    fix m
    assume "possible_bit TYPE(uint32) m"
    from h have "bit (ucast (drop_bit 16 x) :: uint16) m = bit (ucast (drop_bit 16 y) :: uint16) m"
      by (simp add: hi_of_def)
    then show "bit (drop_bit 16 x) m = bit (drop_bit 16 y) m"
      by (cases "m < 16") (auto simp: bit_simps dest: bit_imp_le_length)
  qed
  consider "n < 6" | "6 \<le> n" "n < 16" | "16 \<le> n" by linarith
  then show "bit x n = bit y n"
  proof cases
    case 1
    from p have "bit (take_bit 6 x) n = bit (take_bit 6 y) n" by simp
    with 1 show ?thesis by (simp add: bit_simps)
  next
    case 2
    from i' have "bit (take_bit 10 (drop_bit 6 x)) (n - 6) = bit (take_bit 10 (drop_bit 6 y)) (n - 6)"
      by simp
    moreover from 2 have "n - 6 < 10" "n - 6 + 6 = n" by linarith+
    ultimately show ?thesis by (simp add: bit_simps)
  next
    case 3
    from h' have "bit (drop_bit 16 x) (n - 16) = bit (drop_bit 16 y) (n - 16)" by simp
    with 3 show ?thesis by (simp add: bit_simps)
  qed
qed

lemma msk_disjoint:
  assumes "hi_of x = hi_of y" and "idx_of x = idx_of y" and "x \<noteq> y"
  shows "msk_of x AND msk_of y = 0"
proof -
  have "take_bit 6 x \<noteq> take_bit 6 y" using assms addr_eqI by blast
  then have "unat (take_bit 6 x) \<noteq> unat (take_bit 6 y)" by (simp add: word_unat_eq_iff)
  then show ?thesis
    using pos_less [of x] pos_less [of y] by (simp add: msk_of_alt pow2_and)
qed


lemma getOrCreate_eq:
  "getOrCreate b hi =
     (case shards b hi of Some p \<Rightarrow> (p, b)
      | None \<Rightarrow> (replicate 1024 0, b\<lparr>shards := (shards b)(hi := Some (replicate 1024 0))\<rparr>))"
  by (simp add: getOrCreate_def CompareAndSwap_def Let_def split: option.splits)

lemma SetIfNew_eq:
  "SetIfNew b x =
     (let p = leaf_of b (hi_of x) in
      if p ! idx_of x AND msk_of x \<noteq> 0 then (False, b\<lparr>shards := (shards b)(hi_of x := Some p)\<rparr>)
      else (True, b\<lparr>shards := (shards b)(hi_of x := Some (p[idx_of x := p ! idx_of x OR msk_of x]))\<rparr>))"
  unfolding SetIfNew_def getOrCreate_eq SetIfNew_loop_eq leaf_of_def hi_of_def idx_of_def msk_of_def Let_def
  apply (cases "shards b (ucast (drop_bit 16 x))")
   apply (simp_all only: option.case prod.case split: if_splits)
   apply simp_all
  done

lemma single_bit_or:
  assumes "(w :: uint64) AND 2 ^ k \<noteq> 0"
  shows "w OR 2 ^ k = w"
proof -
  have k: "bit w k"
  proof (rule ccontr)
    assume "\<not> bit w k"
    then have "w AND 2 ^ k = 0" by (intro bit_eqI) (auto simp: bit_simps)
    with assms show False by simp
  qed
  then show ?thesis by (intro bit_eqI) (auto simp: bit_simps)
qed

lemma or_and_nz: "(m :: uint64) \<noteq> 0 \<Longrightarrow> (w OR m) AND m \<noteq> 0"
  by (simp add: bit.conj_disj_distrib2)

lemma leaf_of_length: "wf_Bitset b \<Longrightarrow> length (leaf_of b hi) = 1024"
  by (simp add: wf_Bitset_def leaf_of_def split: option.splits)

lemma bit_of_leaf: "bit_of b x = (leaf_of b (hi_of x) ! idx_of x AND msk_of x \<noteq> 0)"
  using idx_of_less [of x] by (simp add: bit_of_def leaf_of_def split: option.splits)

lemma SetIfNew_fst: "fst (SetIfNew b x) = (\<not> bit_of b x)"
  by (simp add: SetIfNew_eq bit_of_leaf Let_def)

lemma SetIfNew_unique: "unique (snd (SetIfNew b x)) = unique b"
  by (simp add: SetIfNew_eq Let_def)

lemma SetIfNew_shards:
  "shards (snd (SetIfNew b x)) =
     (shards b)(hi_of x := Some ((leaf_of b (hi_of x))[idx_of x := leaf_of b (hi_of x) ! idx_of x OR msk_of x]))"
proof (cases "leaf_of b (hi_of x) ! idx_of x AND msk_of x = 0")
  case True
  then show ?thesis by (simp add: SetIfNew_eq Let_def)
next
  case False
  then have "leaf_of b (hi_of x) ! idx_of x OR msk_of x = leaf_of b (hi_of x) ! idx_of x"
    by (simp add: msk_of_alt single_bit_or)
  with False show ?thesis by (simp add: SetIfNew_eq Let_def)
qed


lemma SetIfNew_wf: "wf_Bitset b \<Longrightarrow> wf_Bitset (snd (SetIfNew b x))"
  unfolding wf_Bitset_def SetIfNew_shards
  using leaf_of_length [of b "hi_of x"] by (simp add: wf_Bitset_def)

lemma SetIfNew_sets: "wf_Bitset b \<Longrightarrow> bit_of (snd (SetIfNew b x)) x"
  using idx_of_less [of x] msk_of_nz [of x] leaf_of_length [of b "hi_of x"]
  by (simp add: bit_of_def SetIfNew_shards or_and_nz)

lemma or_and_disjoint: "(m :: uint64) AND m' = 0 \<Longrightarrow> ((w OR m) AND m' = 0) = (w AND m' = 0)"
  by (simp add: bit.conj_disj_distrib2)

lemma SetIfNew_frame:
  assumes "wf_Bitset b" and "y \<noteq> x"
  shows "bit_of (snd (SetIfNew b x)) y = bit_of b y"
proof (cases "hi_of y = hi_of x")
  case False
  then show ?thesis by (simp add: bit_of_def SetIfNew_shards)
next
  case hi: True
  show ?thesis
  proof (cases "idx_of y = idx_of x")
    case False
    then show ?thesis
      using hi by (simp add: bit_of_leaf leaf_of_def SetIfNew_shards)
  next
    case True
    with hi assms have "msk_of x AND msk_of y = 0"
      using msk_disjoint [of x y] by simp
    then show ?thesis
      using hi True idx_of_less [of x] leaf_of_length [OF assms(1), of "hi_of x"]
      by (simp add: bit_of_leaf [of "snd (SetIfNew b x)"] bit_of_leaf [of b] leaf_of_def [of "snd (SetIfNew b x)"] SetIfNew_shards or_and_disjoint)
  qed
qed


lemma wf_New: "wf_Bitset New"
  by (simp add: wf_Bitset_def New_def)

lemma bit_of_New: "bit_of New x = False"
  by (simp add: bit_of_def New_def)

subsection \<open>Sequences of \<^verbatim>\<open>SetIfNew\<close> calls\<close>

lemma SetIfNew_bit_after: "wf_Bitset b \<Longrightarrow> bit_of (snd (SetIfNew b x)) y = (bit_of b y \<or> y = x)"
  using SetIfNew_frame [of b y x] SetIfNew_sets [of b x] by auto

lemma SetIfNew_seq_length: "length (fst (SetIfNew_seq b xs)) = length xs"
  by (induction xs arbitrary: b) (simp_all add: Let_def)

lemma SetIfNew_seq_wf: "wf_Bitset b \<Longrightarrow> wf_Bitset (snd (SetIfNew_seq b xs))"
  by (induction xs arbitrary: b) (simp_all add: Let_def SetIfNew_wf)

lemma SetIfNew_seq_bit:
  "wf_Bitset b \<Longrightarrow> bit_of (snd (SetIfNew_seq b xs)) y = (bit_of b y \<or> y \<in> set xs)"
  by (induction xs arbitrary: b) (auto simp: Let_def SetIfNew_wf SetIfNew_bit_after)

lemma SetIfNew_seq_nth:
  "i < length xs \<Longrightarrow>
     fst (SetIfNew_seq b xs) ! i = (\<not> bit_of (snd (SetIfNew_seq b (take i xs))) (xs ! i))"
proof (induction xs arbitrary: b i)
  case Nil
  then show ?case by simp
next
  case (Cons x xs)
  show ?case
  proof (cases i)
    case 0
    then show ?thesis by (simp add: Let_def SetIfNew_fst)
  next
    case (Suc j)
    with Cons.prems have "j < length xs" by simp
    from Cons.IH [OF this, of "snd (SetIfNew b x)"] Suc show ?thesis
      by (simp add: Let_def)
  qed
qed

text \<open>
  C2. \<^verbatim>\<open>SetIfNew(x)\<close> answers true exactly when the bit of \<open>x\<close> was 0 just before
  the call, and the bit is 1 afterwards. In any sequence of calls on one set, call \<open>i\<close>
  answers true exactly when the bit of its address was 0 before the sequence and no earlier
  call of the sequence had the same address: among the calls with one address, only the
  first can answer true, and every later one answers false.
\<close>

theorem SetIfNew_true_once:
  assumes "wf_Bitset b"
  shows "fst (SetIfNew b x) = (\<not> bit_of b x)
       \<and> bit_of (snd (SetIfNew b x)) x
       \<and> (\<forall>i < length xs.
            fst (SetIfNew_seq b xs) ! i = (\<not> bit_of (snd (SetIfNew_seq b (take i xs))) (xs ! i))
          \<and> bit_of (snd (SetIfNew_seq b (take (Suc i) xs))) (xs ! i)
          \<and> fst (SetIfNew_seq b xs) ! i = (\<not> bit_of b (xs ! i) \<and> xs ! i \<notin> set (take i xs)))"
proof -
  have "bit_of (snd (SetIfNew_seq b (take (Suc i) xs))) (xs ! i)" if "i < length xs" for i
    using that assms by (simp add: SetIfNew_seq_bit take_Suc_conv_app_nth)
  then show ?thesis
    using assms by (simp add: SetIfNew_fst SetIfNew_sets SetIfNew_seq_nth SetIfNew_seq_bit)
qed

theorem SetIfNew_true_once_witness:
  "wf_Bitset New
   \<and> fst (SetIfNew New 0x0A000001)
   \<and> bit_of (snd (SetIfNew New 0x0A000001)) 0x0A000001
   \<and> fst (SetIfNew_seq New [0x0A000001, 0x0A000002, 0x0A000001]) ! 0
   \<and> fst (SetIfNew_seq New [0x0A000001, 0x0A000002, 0x0A000001]) ! 1
   \<and> \<not> fst (SetIfNew_seq New [0x0A000001, 0x0A000002, 0x0A000001]) ! 2"
proof -
  let ?xs = "[0x0A000001, 0x0A000002, 0x0A000001] :: uint32 list"
  note t = SetIfNew_true_once [OF wf_New, of "0x0A000001" ?xs]
  note n = t [THEN conjunct2, THEN conjunct2, rule_format, THEN conjunct2, THEN conjunct2]
  have a: "fst (SetIfNew New 0x0A000001)" "bit_of (snd (SetIfNew New 0x0A000001)) 0x0A000001"
    using t by (simp_all add: bit_of_New)
  have 0: "fst (SetIfNew_seq New ?xs) ! 0"
    using n [of 0] by (simp add: bit_of_New del: SetIfNew_seq.simps)
  have 1: "fst (SetIfNew_seq New ?xs) ! 1"
    using n [of 1] by (simp add: bit_of_New del: SetIfNew_seq.simps)
  have 2: "\<not> fst (SetIfNew_seq New ?xs) ! 2"
    using n [of 2] by (simp add: bit_of_New del: SetIfNew_seq.simps)
  from a 0 1 2 wf_New show ?thesis by (simp del: SetIfNew_seq.simps)
qed


subsection \<open>Frame\<close>

text \<open>
  C10. \<^verbatim>\<open>SetIfNew(x)\<close> changes at most the bit of \<open>x\<close>: for any other address
  \<open>y\<close>, the bit of \<open>y\<close> and the answer of a following \<^verbatim>\<open>SetIfNew(y)\<close> are what
  they were. \<^verbatim>\<open>SetIfNew\<close> leaves the unique counter alone, and \<^verbatim>\<open>AddUnique\<close>,
  the only operation that writes the counter, leaves the directory alone.
\<close>

theorem SetIfNew_frame_property:
  assumes "wf_Bitset b" and "y \<noteq> x"
  shows "bit_of (snd (SetIfNew b x)) y = bit_of b y
       \<and> fst (SetIfNew (snd (SetIfNew b x)) y) = fst (SetIfNew b y)
       \<and> GetUniqueCount (snd (SetIfNew b x)) = GetUniqueCount b
       \<and> shards (AddUnique b n) = shards b"
  using assms
  by (simp add: SetIfNew_frame SetIfNew_fst SetIfNew_unique GetUniqueCount_def AddUnique_def)

theorem SetIfNew_frame_property_witness:
  "wf_Bitset New \<and> (0x0A000002 :: uint32) \<noteq> 0x0A000001
   \<and> bit_of (snd (SetIfNew New 0x0A000001)) 0x0A000002 = bit_of New 0x0A000002
   \<and> fst (SetIfNew (snd (SetIfNew New 0x0A000001)) 0x0A000002) = fst (SetIfNew New 0x0A000002)
   \<and> GetUniqueCount (snd (SetIfNew New 0x0A000001)) = GetUniqueCount New
   \<and> shards (AddUnique New 5) = shards New"
proof -
  have ne: "(0x0A000002 :: uint32) \<noteq> 0x0A000001" by simp
  show ?thesis
    using SetIfNew_frame_property [OF wf_New ne, of 5] wf_New ne by simp
qed

subsection \<open>Monotonicity\<close>

lemma AddUnique_bit: "bit_of (AddUnique b n) x = bit_of b x"
  by (simp add: AddUnique_def bit_of_def)

lemma AddUnique_wf: "wf_Bitset (AddUnique b n) = wf_Bitset b"
  by (simp add: AddUnique_def wf_Bitset_def)

lemma do_call_wf: "wf_Bitset b \<Longrightarrow> wf_Bitset (do_call b c)"
  by (cases c) (simp_all add: SetIfNew_wf AddUnique_wf)

lemma do_call_bit: "wf_Bitset b \<Longrightarrow> bit_of b x \<Longrightarrow> bit_of (do_call b c) x"
  by (cases c) (simp_all add: SetIfNew_bit_after AddUnique_bit)

lemma do_calls_wf: "wf_Bitset b \<Longrightarrow> wf_Bitset (do_calls b cs)"
  by (induction cs arbitrary: b) (simp_all add: do_call_wf)

lemma do_calls_bit: "wf_Bitset b \<Longrightarrow> bit_of b x \<Longrightarrow> bit_of (do_calls b cs) x"
  by (induction cs arbitrary: b) (simp_all add: do_call_wf do_call_bit)

lemma AddUnique_unat:
  "unat (unique b) + unat n < 2 ^ 64 \<Longrightarrow> unat (unique (AddUnique b n)) = unat (unique b) + unat n"
  by (simp add: AddUnique_def unat_add_lem [THEN iffD1])

lemma do_calls_unat:
  "unat (unique b) + added cs < 2 ^ 64 \<Longrightarrow>
     unat (unique (do_calls b cs)) = unat (unique b) + added cs"
proof (induction cs arbitrary: b)
  case Nil
  then show ?case by simp
next
  case (Cons c cs)
  show ?case
  proof (cases c)
    case (CallSetIfNew x)
    with Cons show ?thesis by (simp add: SetIfNew_unique)
  next
    case (CallAddUnique n)
    with Cons.prems have a: "unat (unique b) + unat n < 2 ^ 64" by simp
    from Cons.prems CallAddUnique have "unat (unique (AddUnique b n)) + added cs < 2 ^ 64"
      by (simp add: AddUnique_unat [OF a])
    from Cons.IH [OF this] CallAddUnique show ?thesis
      by (simp add: AddUnique_unat [OF a])
  qed
qed

text \<open>
  C8, as stated: the counter never decreases across any sequence of calls. The counter is a
  64-bit word and \<^verbatim>\<open>AddUnique\<close> adds modulo \<open>2^64\<close>: after \<^verbatim>\<open>AddUnique(1)\<close> the
  count is 1, and after a further \<^verbatim>\<open>AddUnique(0xFFFFFFFFFFFFFFFF)\<close> it is 0.
\<close>

theorem unique_count_wraps_counterexample:
  "\<not> GetUniqueCount (do_calls New [CallAddUnique 1])
      \<le> GetUniqueCount (do_calls New [CallAddUnique 1, CallAddUnique 0xFFFFFFFFFFFFFFFF])"
  by (simp add: GetUniqueCount_def AddUnique_def New_def word_le_nat_alt)

text \<open>
  C8, amended. Across any sequence of \<^verbatim>\<open>SetIfNew\<close> and \<^verbatim>\<open>AddUnique\<close> calls, a bit
  that is 1 stays 1; and when the counter plus the amounts the sequence adds stays below
  \<open>2^64\<close>, the counter does not decrease: it grows by exactly the amounts added.
\<close>

theorem monotone_without_overflow:
  assumes "wf_Bitset b"
  shows "(bit_of b x \<longrightarrow> bit_of (do_calls b cs) x)
       \<and> (unat (GetUniqueCount b) + added cs < 2 ^ 64 \<longrightarrow>
            GetUniqueCount b \<le> GetUniqueCount (do_calls b cs)
          \<and> unat (GetUniqueCount (do_calls b cs)) = unat (GetUniqueCount b) + added cs)"
  using assms by (simp add: do_calls_bit do_calls_unat GetUniqueCount_def word_le_nat_alt)

theorem monotone_without_overflow_witness:
  "wf_Bitset (snd (SetIfNew New 0x0A000001))
   \<and> bit_of (snd (SetIfNew New 0x0A000001)) 0x0A000001
   \<and> bit_of (do_calls (snd (SetIfNew New 0x0A000001)) [CallAddUnique 2, CallSetIfNew 0x0A000002]) 0x0A000001
   \<and> unat (GetUniqueCount (snd (SetIfNew New 0x0A000001)))
         + added [CallAddUnique 2, CallSetIfNew 0x0A000002] < 2 ^ 64
   \<and> GetUniqueCount (snd (SetIfNew New 0x0A000001))
       \<le> GetUniqueCount (do_calls (snd (SetIfNew New 0x0A000001)) [CallAddUnique 2, CallSetIfNew 0x0A000002])"
proof -
  let ?b = "snd (SetIfNew New 0x0A000001)"
  let ?cs = "[CallAddUnique 2, CallSetIfNew 0x0A000002]"
  have w: "wf_Bitset ?b" by (rule SetIfNew_wf [OF wf_New])
  have s: "bit_of ?b 0x0A000001" by (rule SetIfNew_sets [OF wf_New])
  have u: "unat (GetUniqueCount ?b) + added ?cs < 2 ^ 64"
    by (simp add: GetUniqueCount_def SetIfNew_unique New_def)
  from monotone_without_overflow [OF w, of "0x0A000001" ?cs] w s u show ?thesis
    by (simp del: do_calls.simps added.simps)
qed


section \<open>Properties of the address parser\<close>

lemma digit_byte: "k < 10 \<Longrightarrow> (0x30 + of_nat k :: byte) - 0x30 = of_nat k"
  by simp

lemma digit_le9: "k < 10 \<Longrightarrow> (of_nat k :: byte) \<le> 9"
  by (simp add: word_le_nat_alt unat_of_nat)

lemma digit_ucast: "k < 10 \<Longrightarrow> (ucast (of_nat k :: byte) :: uint32) = of_nat k"
  by (simp add: unsigned_of_nat take_bit_nat_eq_self)

lemma parse_loop_digit:
  "k < 10 \<Longrightarrow>
     parse_loop ((0x30 + of_nat k) # cs) acc part dots =
       (if part * 10 + of_nat k > 255 then (0, False)
        else parse_loop cs acc (part * 10 + of_nat k) dots)"
  by (simp add: digit_le9 digit_ucast Let_def)

lemma parse_loop_dot:
  "parse_loop (0x2E # cs) acc part dots =
     (if dots \<ge> 3 then (0, False) else parse_loop cs (push_bit 8 acc OR part) 0 (dots + 1))"
  by (simp add: Let_def)

lemma parse_loop_zeros: "parse_loop (zeros k @ cs) acc 0 dots = parse_loop cs acc 0 dots"
proof (induction k)
  case 0
  then show ?case by (simp add: zeros_def)
next
  case (Suc k)
  have "parse_loop ((0x30 + of_nat 0) # zeros k @ cs) acc 0 dots = parse_loop (zeros k @ cs) acc 0 dots"
    by (subst parse_loop_digit) simp_all
  with Suc show ?case by (simp add: zeros_def del: parse_loop.simps)
qed

lemma small_word: "a \<le> 255 \<Longrightarrow> \<not> (of_nat a :: uint32) > 255"
  by (simp add: word_less_nat_alt unat_of_nat)

lemma parse_loop_decimal:
  "a \<le> 255 \<Longrightarrow> parse_loop (decimal a @ cs) acc 0 dots = parse_loop cs acc (of_nat a) dots"
proof (induction a arbitrary: cs rule: decimal.induct)
  case (1 n)
  show ?case
  proof (cases "n < 10")
    case True
    have "parse_loop ((0x30 + of_nat n) # cs) acc 0 dots = parse_loop cs acc (of_nat n) dots"
      using True "1.prems" by (subst parse_loop_digit) (simp_all add: small_word)
    with True show ?thesis by (subst decimal.simps) (simp del: parse_loop.simps)
  next
    case False
    then have d: "decimal n = decimal (n div 10) @ [0x30 + of_nat (n mod 10)]"
      by (subst decimal.simps) simp
    have le: "n div 10 \<le> 255" using "1.prems" by simp
    have n: "(of_nat (n div 10) :: uint32) * 10 + of_nat (n mod 10) = of_nat n"
    proof -
      have "(of_nat (n div 10) :: uint32) * 10 + of_nat (n mod 10) = of_nat (n div 10 * 10 + n mod 10)"
        by (simp only: of_nat_add of_nat_mult of_nat_numeral)
      also have "n div 10 * 10 + n mod 10 = n" by simp
      finally show ?thesis .
    qed
    have "parse_loop (decimal n @ cs) acc 0 dots =
            parse_loop ((0x30 + of_nat (n mod 10)) # cs) acc (of_nat (n div 10)) dots"
      using "1.IH" [OF False le, of "(0x30 + of_nat (n mod 10)) # cs"]
      by (simp add: d del: parse_loop.simps)
    also have "\<dots> = parse_loop cs acc (of_nat n) dots"
      using "1.prems" by (subst parse_loop_digit) (simp_all add: n small_word)
    finally show ?thesis .
  qed
qed

lemma parse_loop_component:
  "a \<le> 255 \<Longrightarrow>
     parse_loop (zeros k @ decimal a @ cs) acc 0 dots = parse_loop cs acc (of_nat a) dots"
  by (simp add: parse_loop_zeros parse_loop_decimal del: parse_loop.simps)

lemma decimal_length: "1 \<le> length (decimal n) \<and> (n \<le> 255 \<longrightarrow> length (decimal n) \<le> 3)"
proof -
  have 1: "length (decimal k) = 1" if "k < 10" for k
    using that by (subst decimal.simps) simp
  have 2: "length (decimal k) = Suc (length (decimal (k div 10)))" if "\<not> k < 10" for k
    using that by (subst decimal.simps) simp
  have "1 \<le> length (decimal n)"
    by (cases "n < 10") (simp_all add: 1 2)
  moreover have "length (decimal n) \<le> 3" if "n \<le> 255"
  proof (cases "n < 10")
    case True then show ?thesis by (simp add: 1)
  next
    case False
    show ?thesis
    proof (cases "n div 10 < 10")
      case True with False show ?thesis by (simp add: 2 1)
    next
      case F2: False
      have "n div 10 div 10 < 10" using that by simp
      with False F2 show ?thesis by (simp add: 2 1)
    qed
  qed
  ultimately show ?thesis by simp
qed

lemma u32_alt:
  "push_bit 8 (push_bit 8 (push_bit 8 (push_bit 8 0 OR a) OR b) OR c) OR d
     = push_bit 24 a OR push_bit 16 b OR push_bit 8 c OR (d :: uint32)"
  by (simp add: push_bit_or push_bit_push_bit ac_simps)

lemma dots_count:
  "\<not> (3 :: uint32) \<le> 0" "\<not> (3 :: uint32) \<le> 1" "\<not> (3 :: uint32) \<le> 2"
  by (simp_all add: word_le_nat_alt)

lemma parse_loop_dotted:
  assumes "a \<le> 255" "b \<le> 255" "c \<le> 255" "d \<le> 255"
  shows "parse_loop (dotted (zeros ka @ decimal a) (zeros kb @ decimal b)
                            (zeros kc @ decimal c) (zeros kd @ decimal d)) 0 0 0
           = (u32 a b c d, True)"
proof -
  have "parse_loop (dotted (zeros ka @ decimal a) (zeros kb @ decimal b)
                            (zeros kc @ decimal c) (zeros kd @ decimal d)) 0 0 0
      = parse_loop (zeros kd @ decimal d @ []) (push_bit 8 (push_bit 8 (push_bit 8 0 OR of_nat a) OR of_nat b) OR of_nat c) 0 3"
    using assms
    by (simp add: dotted_def parse_loop_component parse_loop_dot dots_count del: parse_loop.simps)
  also have "\<dots> = (u32 a b c d, True)"
    using assms by (simp only: parse_loop_component) (simp add: u32_def or.assoc)
  finally show ?thesis .
qed

lemma zeros_0: "zeros 0 = []" by (simp add: zeros_def)


lemma dotted_length:
  "length (dotted a b c d) = length a + length b + length c + length d + 3"
  by (simp add: dotted_def)

text \<open>
  C3. For components \<open>a\<close>, \<open>b\<close>, \<open>c\<close>, \<open>d\<close> in \<open>[0, 255]\<close>, the parser accepts
  the decimal dotted quad and returns \<open>(a<<24)|(b<<16)|(c<<8)|d\<close>. Leading zeros in the
  components are accepted and do not change the value, as long as the whole string keeps
  within the 15 bytes the parser admits.
\<close>

theorem parse_dotted_quad:
  assumes "a \<le> 255" and "b \<le> 255" and "c \<le> 255" and "d \<le> 255"
  shows "IPv4ByteToUint32 (dotted (decimal a) (decimal b) (decimal c) (decimal d)) = (u32 a b c d, True)
       \<and> (length (dotted (zeros ka @ decimal a) (zeros kb @ decimal b)
                          (zeros kc @ decimal c) (zeros kd @ decimal d)) \<le> 15 \<longrightarrow>
            IPv4ByteToUint32 (dotted (zeros ka @ decimal a) (zeros kb @ decimal b)
                                     (zeros kc @ decimal c) (zeros kd @ decimal d))
              = (u32 a b c d, True))"
proof
  have len: "7 \<le> length (dotted (decimal a) (decimal b) (decimal c) (decimal d))"
    "length (dotted (decimal a) (decimal b) (decimal c) (decimal d)) \<le> 15"
    using decimal_length [of a] decimal_length [of b] decimal_length [of c] decimal_length [of d] assms
    by (simp_all add: dotted_length)
  have "parse_loop (dotted (decimal a) (decimal b) (decimal c) (decimal d)) 0 0 0 = (u32 a b c d, True)"
    using parse_loop_dotted [OF assms, of 0 0 0 0] by (simp add: zeros_0)
  with len show "IPv4ByteToUint32 (dotted (decimal a) (decimal b) (decimal c) (decimal d)) = (u32 a b c d, True)"
    by (simp add: IPv4ByteToUint32_def Let_def)
next
  let ?s = "dotted (zeros ka @ decimal a) (zeros kb @ decimal b) (zeros kc @ decimal c) (zeros kd @ decimal d)"
  have "7 \<le> length ?s"
    using decimal_length [of a] decimal_length [of b] decimal_length [of c] decimal_length [of d]
    by (simp add: dotted_length)
  then show "length ?s \<le> 15 \<longrightarrow> IPv4ByteToUint32 ?s = (u32 a b c d, True)"
    using parse_loop_dotted [OF assms, of ka kb kc kd] by (simp add: IPv4ByteToUint32_def Let_def)
qed


theorem parse_dotted_quad_witness:
  "(1 :: nat) \<le> 255 \<and> (2 :: nat) \<le> 255 \<and> (3 :: nat) \<le> 255 \<and> (4 :: nat) \<le> 255
   \<and> IPv4ByteToUint32 (bytes_of ''1.2.3.4'') = (0x01020304, True)
   \<and> length (bytes_of ''001.002.003.004'') \<le> 15
   \<and> IPv4ByteToUint32 (bytes_of ''001.002.003.004'') = (0x01020304, True)"
proof -
  have s1: "dotted (decimal 1) (decimal 2) (decimal 3) (decimal 4) = bytes_of ''1.2.3.4''"
    by code_simp
  have s2: "dotted (zeros 2 @ decimal 1) (zeros 2 @ decimal 2) (zeros 2 @ decimal 3) (zeros 2 @ decimal 4)
              = bytes_of ''001.002.003.004''"
    by code_simp
  have v: "u32 1 2 3 4 = 0x01020304" by code_simp
  have l: "length (bytes_of ''001.002.003.004'') \<le> 15" by (simp add: bytes_of_def)
  from parse_dotted_quad [of 1 2 3 4 2 2 2 2] l show ?thesis
    by (simp only: s1 s2 v) simp
qed


text \<open>
  C4. The claim is that an input with an empty component is rejected. The parser has no
  check that a component has a digit: with three dots and a length in \<open>[7, 15]\<close>, an
  empty component reads as 0. Two adjacent dots, a leading dot and a trailing dot are all
  accepted here.
\<close>

theorem empty_component_accepted:
  "IPv4ByteToUint32 (bytes_of ''10..10.10'') = (0x0A000A0A, True)
   \<and> IPv4ByteToUint32 (bytes_of ''.10.10.10'') = (0x000A0A0A, True)
   \<and> IPv4ByteToUint32 (bytes_of ''10.10.10.'') = (0x0A0A0A00, True)"
  by code_simp

section \<open>Properties of the library calls\<close>

lemma IndexByte_bounds: "- 1 \<le> IndexByte bs c \<and> IndexByte bs c < int (length bs)"
  by (induction bs) (auto simp: Let_def)

lemma IndexByte_notin: "c \<notin> set bs \<Longrightarrow> IndexByte bs c = - 1"
  by (induction bs) (auto simp: Let_def)

lemma IndexByte_append: "c \<notin> set l \<Longrightarrow> IndexByte (l @ c # r) c = int (length l)"
  by (induction l) (auto simp: Let_def)

lemma IndexByte_nonneg_iff: "(0 \<le> IndexByte bs c) = (c \<in> set bs)"
proof
  assume "0 \<le> IndexByte bs c"
  then show "c \<in> set bs" using IndexByte_notin [of c bs] by force
next
  assume "c \<in> set bs"
  then obtain l r where "bs = l @ c # r" "c \<notin> set l"
    by (meson split_list_first)
  then show "0 \<le> IndexByte bs c" by (simp add: IndexByte_append)
qed

section \<open>Properties of the shard planner\<close>

subsection \<open>The planner on small files\<close>

lemmas planner_eval =
  splitToShards_def quot_def splitToShards_loop.simps moveStartToNewline_def
  moveStartToNewline_loop.simps ReadAt_def bytes_of_def New_fp_def Let_def

text \<open>
  C5. The claim is that the planned shards tile the file and that every shard after the
  first is empty or starts one byte past a newline. On the three bytes \<open>abc\<close> with three
  workers the plan is \<open>[0,2)\<close>, \<open>[2,3)\<close>, \<open>[3,3)\<close>: the second shard was collapsed to
  \<open>[2,2)\<close> for want of a newline, and its end was then overwritten with the start of the
  third. It is not empty, and the byte before its start is \<open>b\<close>.
\<close>

theorem splitToShards_unaligned:
  "splitToShards (New_fp (bytes_of ''abc'') New 3) 3 3
     = Inr [\<lparr>Start = 0, End = 2\<rparr>, \<lparr>Start = 2, End = 3\<rparr>, \<lparr>Start = 3, End = 3\<rparr>]
   \<and> bytes_of ''abc'' ! 1 \<noteq> 0x0A"
  by (simp add: planner_eval) (simp add: numeral_3_eq_3 numeral_2_eq_2)

subsection \<open>The planner returns a plan\<close>

lemma ReadAt_fst: "0 \<le> off \<Longrightarrow> fst (ReadAt f n off) = take n (drop (nat off) f)"
  by (simp add: ReadAt_def Let_def)

lemma moveStartToNewline_loop_Inr:
  "0 \<le> off \<Longrightarrow> End s \<le> int (length (file_data fp)) \<Longrightarrow>
     \<exists>r. moveStartToNewline_loop fp s off = Inr r"
proof (induction fp s off rule: moveStartToNewline_loop.induct)
  case (1 fp s off)
  show ?case
  proof (cases "End s \<le> off")
    case True
    then show ?thesis by (subst moveStartToNewline_loop.simps) simp
  next
    case False
    let ?r = "ReadAt (file_data fp) 65536 off"
    let ?n = "int (length (fst ?r))"
    have n: "?n \<noteq> 0"
      using False "1.prems" by (simp add: ReadAt_fst)
    show ?thesis
    proof (cases "0 \<le> IndexByte (fst ?r) 0x0A")
      case True
      with False n show ?thesis
        by (subst moveStartToNewline_loop.simps) (simp add: Let_def)
    next
      case nf: False
      have "\<exists>r. moveStartToNewline_loop fp s (off + ?n) = Inr r"
        using "1.IH" [OF False refl refl _ refl nf] n "1.prems" by simp
      with False n nf show ?thesis
        by (subst moveStartToNewline_loop.simps) (simp add: Let_def)
    qed
  qed
qed

lemma moveStartToNewline_Inr:
  "0 \<le> Start s \<Longrightarrow> End s \<le> int (length (file_data fp)) \<Longrightarrow>
     \<exists>r. moveStartToNewline fp s = Inr r"
  by (simp add: moveStartToNewline_def moveStartToNewline_loop_Inr)

lemma splitToShards_loop_Inr:
  "0 \<le> start \<Longrightarrow> 0 < part \<Longrightarrow> fsize = int (length (file_data fp)) \<Longrightarrow>
     \<exists>r. splitToShards_loop fp fsize part n i start shs = Inr r \<and> length r = length shs"
proof (induction fp fsize part n i start shs rule: splitToShards_loop.induct)
  case (1 fp fsize part n i start shs)
  show ?case
  proof (cases "i < n")
    case False
    then show ?thesis by (subst splitToShards_loop.simps) simp
  next
    case True
    let ?end1 = "if i = n - 1 \<or> start + part > fsize then fsize else start + part"
    let ?cur = "\<lparr>Start = start, End = ?end1\<rparr>"
    have e: "0 \<le> ?end1" "?end1 \<le> int (length (file_data fp))"
      using "1.prems" by auto
    show ?thesis
    proof (cases "i > 0")
      case False
      from "1.IH"(2) [OF True refl refl refl False e(1) "1.prems"(2,3)] True False
      show ?thesis by (subst splitToShards_loop.simps) (simp add: Let_def)
    next
      case pos: True
      obtain al where al: "moveStartToNewline fp ?cur = Inr al"
        using moveStartToNewline_Inr [of ?cur fp] "1.prems" e by auto
      from "1.IH"(1) [OF True refl refl refl pos al e(1) "1.prems"(2,3)] True pos al
      show ?thesis by (subst splitToShards_loop.simps) (simp add: Let_def)
    qed
  qed
qed

lemma splitToShards_Inr:
  assumes "fsize = int (length (file_data fp))" and "0 < fsize" and "1 \<le> n"
  shows "\<exists>shs. splitToShards fp fsize n = Inr shs \<and> shs \<noteq> []"
proof -
  let ?n1 = "if n > fsize then 1 else n"
  have n1: "1 \<le> ?n1" "?n1 \<le> fsize" using assms(2,3) by (simp_all split: if_splits)
  then have p0: "0 < fsize div ?n1"
    by (simp add: pos_imp_zdiv_pos_iff)
  have q: "quot fsize ?n1 = fsize div ?n1"
    using n1 assms by (simp add: quot_def sgn_if)
  obtain r where r: "splitToShards_loop fp fsize (fsize div ?n1) ?n1 0 0
      (replicate (nat ?n1) \<lparr>Start = 0, End = 0\<rparr>) = Inr r"
    "length r = length (replicate (nat ?n1) \<lparr>Start = 0, End = 0\<rparr>)"
    using splitToShards_loop_Inr [OF _ p0 assms(1), of 0 ?n1 0] by blast
  have "r \<noteq> []" using r(2) n1 by auto
  moreover have "splitToShards fp fsize n = Inr r"
    using assms n1 p0 r(1) unfolding splitToShards_def q Let_def by (simp split: if_splits)
  ultimately show ?thesis by blast
qed


subsection \<open>Alignment\<close>

lemma IndexByte_app:
  "IndexByte (xs @ ys) c =
     (if c \<in> set xs then IndexByte xs c
      else if IndexByte ys c < 0 then - 1 else int (length xs) + IndexByte ys c)"
proof (induction xs)
  case Nil
  show ?case using IndexByte_bounds [of ys c] by auto
next
  case (Cons x xs)
  then show ?case by (auto simp: Let_def)
qed

lemma IndexByte_take_drop:
  "IndexByte xs c =
     (if 0 \<le> IndexByte (take m xs) c then IndexByte (take m xs) c
      else if IndexByte (drop m xs) c < 0 then - 1
      else int (length (take m xs)) + IndexByte (drop m xs) c)"
  using IndexByte_app [of "take m xs" "drop m xs" c]
  by (simp add: IndexByte_nonneg_iff)

lemma moveStartToNewline_loop_eq:
  "0 \<le> off \<Longrightarrow> End s \<le> int (length (file_data fp)) \<Longrightarrow>
     moveStartToNewline_loop fp s off = Inr (aligned (file_data fp) (s\<lparr>Start := off\<rparr>))"
proof (induction fp s off rule: moveStartToNewline_loop.induct)
  case (1 fp s off)
  let ?f = "file_data fp"
  let ?k = "IndexByte (drop (nat off) ?f) 0x0A"
  show ?case
  proof (cases "End s \<le> off")
    case True
    then have "(End s - off + 65535) div 65536 \<le> 0" by simp
    then have "\<not> (0 \<le> ?k \<and> off + ?k < off + 65536 * ((End s - off + 65535) div 65536))"
      by linarith
    with True show ?thesis
      by (subst moveStartToNewline_loop.simps) (simp add: aligned_def reach_def Let_def)
  next
    case False
    let ?r = "ReadAt ?f 65536 off"
    let ?b = "take 65536 (drop (nat off) ?f)"
    let ?n = "int (length (fst ?r))"
    have b: "fst ?r = ?b" using "1.prems" by (simp add: ReadAt_fst)
    have n: "?n \<noteq> 0" using False "1.prems" by (simp add: ReadAt_fst)
    have c1: "1 \<le> (End s - off + 65535) div 65536" using False by simp
    show ?thesis
    proof (cases "0 \<le> IndexByte ?b 0x0A")
      case True
      have k: "?k = IndexByte ?b 0x0A"
        using True IndexByte_take_drop [of "drop (nat off) ?f" "0x0A" 65536] by simp
      have "length ?b \<le> 65536" by simp
      then have "IndexByte ?b 0x0A < 65536"
        using IndexByte_bounds [of ?b "0x0A"] by linarith
      with c1 have "off + IndexByte ?b 0x0A < off + 65536 * ((End s - off + 65535) div 65536)"
        by linarith
      with True k have "aligned ?f (s\<lparr>Start := off\<rparr>) = \<lparr>Start = off + IndexByte ?b 0x0A + 1, End = End s\<rparr>"
        by (simp add: aligned_def reach_def Let_def)
      with False n True b show ?thesis
        by (subst moveStartToNewline_loop.simps) (simp add: Let_def)
    next
      case nf: False
      have step: "moveStartToNewline_loop fp s off = moveStartToNewline_loop fp s (off + ?n)"
        using False n nf b by (subst moveStartToNewline_loop.simps) (simp add: Let_def)
      have ih: "moveStartToNewline_loop fp s (off + ?n) = Inr (aligned ?f (s\<lparr>Start := off + ?n\<rparr>))"
        using "1.IH" [OF False refl refl _ refl] n nf b "1.prems" by simp
      let ?k' = "IndexByte (drop (nat (off + ?n)) ?f) 0x0A"
      have d: "drop (nat (off + ?n)) ?f = drop 65536 (drop (nat off) ?f)"
      proof (cases "length (drop (nat off) ?f) \<le> 65536")
        case True
        then have "nat (off + ?n) = length ?f" using "1.prems" False b by simp
        with True show ?thesis by simp
      next
        case False
        then have "nat (off + ?n) = nat off + 65536" using "1.prems" b by simp
        then show ?thesis by (simp add: add.commute)
      qed
      have kk: "?k = (if ?k' < 0 then - 1 else int (length ?b) + ?k')"
        using nf IndexByte_take_drop [of "drop (nat off) ?f" "0x0A" 65536] by (simp add: d)
      have "aligned ?f (s\<lparr>Start := off + ?n\<rparr>) = aligned ?f (s\<lparr>Start := off\<rparr>)"
      proof (cases "?k' < 0")
        case True
        with kk show ?thesis by (simp add: aligned_def reach_def Let_def)
      next
        case k0: False
        then have "drop 65536 (drop (nat off) ?f) \<noteq> []"
          using d by auto
        then have full: "?n = 65536" using b by simp
        have "(End s - (off + 65536) + 65535) div 65536 = (End s - off + 65535) div 65536 - 1"
          by simp
        then have "off + 65536 + 65536 * ((End s - (off + 65536) + 65535) div 65536)
            = off + 65536 * ((End s - off + 65535) div 65536)"
          by simp
        with k0 kk full b show ?thesis
          by (simp add: aligned_def reach_def Let_def)
      qed
      with step ih show ?thesis by simp
    qed
  qed
qed


lemma aligned_End: "End (aligned f s) = End s"
  by (simp add: aligned_def Let_def)

lemma moveStartToNewline_eq:
  "0 < Start s \<Longrightarrow> End s \<le> int (length (file_data fp)) \<Longrightarrow>
     moveStartToNewline fp s = Inr (aligned (file_data fp) s)"
  using moveStartToNewline_loop_eq [of "Start s" s fp]
  by (simp add: moveStartToNewline_def)

lemma two_updates:
  assumes "Suc m < length shs"
  shows "take (Suc m) ((shs[m := x])[Suc m := y]) = take m shs @ [x]"
    and "((shs[m := x])[Suc m := y]) ! Suc m = y"
  using assms by (simp_all add: take_Suc_conv_app_nth)

lemma upt_last: "[0..<Suc m] = [0..<m] @ [m]"
  by simp

lemma splitToShards_loop_plan:
  assumes "fsize = int (length (file_data fp))" and "0 < part" and "n * part \<le> fsize"
    and "1 \<le> i" and "i \<le> n" and "length shs = nat n" and "i < n \<longrightarrow> start = i * part"
    and "take (nat i - 1) shs
           = map (\<lambda>j. \<lparr>Start = boundary (file_data fp) part n j,
                        End = boundary (file_data fp) part n (Suc j)\<rparr>) [0..<nat i - 1]"
    and "Start (shs ! (nat i - 1)) = boundary (file_data fp) part n (nat i - 1)"
    and "i = n \<longrightarrow> End (shs ! (nat i - 1)) = fsize"
  shows "splitToShards_loop fp fsize part n i start shs
           = Inr (map (\<lambda>j. \<lparr>Start = boundary (file_data fp) part n j,
                              End = boundary (file_data fp) part n (Suc j)\<rparr>) [0..<nat n])"
  using assms
proof (induction fp fsize part n i start shs rule: splitToShards_loop.induct)
  case (1 fp fsize part n i start shs)
  let ?f = "file_data fp"
  let ?b = "boundary ?f part n"
  let ?sh = "\<lambda>j. \<lparr>Start = ?b j, End = ?b (Suc j)\<rparr>"
  define m where "m = nat i - 1"
  have im: "nat i = Suc m" "nat (i - 1) = m" "nat (i + 1) - 1 = Suc m"
    using "1.prems"(4) by (simp_all add: m_def)
  have p8: "take m shs = map ?sh [0..<m]" and p9: "Start (shs ! m) = ?b m"
    using "1.prems"(8,9) by (simp_all add: m_def)
  show ?case
  proof (cases "i < n")
    case False
    with "1.prems" have i: "i = n" by simp
    have len: "length shs = Suc m" using "1.prems"(6) i im(1) by simp
    have "n \<le> int (Suc m)" using i im(1) by linarith
    then have "?b (Suc m) = fsize"
      using "1.prems"(1) by (simp add: boundary_def)
    moreover have "End (shs ! m) = fsize" using "1.prems"(10) i by (simp add: m_def)
    moreover have "shs ! m = \<lparr>Start = Start (shs ! m), End = End (shs ! m)\<rparr>" by simp
    ultimately have "shs ! m = ?sh m" using p9 by simp
    moreover have "shs = take m shs @ [shs ! m]"
      using len by (metis lessI order_refl take_Suc_conv_app_nth take_all)
    ultimately have "shs = map ?sh [0..<Suc m]"
      using p8 by (simp only: upt_last map_append list.map)
    then have "shs = map ?sh [0..<nat n]" using i im(1) by simp
    with False show ?thesis by (subst splitToShards_loop.simps) simp
  next
    case True
    have st: "start = i * part" using True "1.prems" by simp
    have "(i + 1) * part \<le> n * part"
      using True "1.prems"(2) by (intro mult_right_mono) simp_all
    with "1.prems" have le: "start + part \<le> fsize" by (simp add: st distrib_right)
    define e where "e = (if i = n - 1 then fsize else (i + 1) * part)"
    have e1: "(if i = n - 1 \<or> start + part > fsize then fsize else start + part) = e"
      using le by (simp add: st distrib_right e_def)
    have cur: "\<lparr>Start = start, End = e\<rparr> = naive fsize part n i"
      by (simp add: naive_def st e_def)
    have "0 < start" using "1.prems" st by simp
    moreover have "e \<le> fsize" using le by (simp add: st distrib_right e_def)
    ultimately have mv: "moveStartToNewline fp \<lparr>Start = start, End = e\<rparr>
        = Inr (aligned ?f \<lparr>Start = start, End = e\<rparr>)"
      using moveStartToNewline_eq [of "\<lparr>Start = start, End = e\<rparr>" fp] "1.prems"(1) by simp
    define al where "al = aligned ?f \<lparr>Start = start, End = e\<rparr>"
    have "int (Suc m) = i" using im(1) "1.prems"(4) by linarith
    then have bi: "?b (Suc m) = Start al"
      using True "1.prems"(1) cur by (simp add: boundary_def al_def del: of_nat_Suc)
    have eal: "End al = e" by (simp add: al_def aligned_End)
    define shs' where "shs' = (shs[m := (shs ! m)\<lparr>End := Start al\<rparr>])[Suc m := al]"
    have unf: "splitToShards_loop fp fsize part n i start shs
        = splitToShards_loop fp fsize part n (i + 1) e shs'"
      using True "1.prems"(4) mv [folded al_def]
      by (subst splitToShards_loop.simps) (simp add: Let_def e1 im shs'_def)
    have ilen: "Suc m < length shs" using True "1.prems"(4,6) im(1) by simp
    have x: "(shs ! m)\<lparr>End := Start al\<rparr> = ?sh m" using p9 bi by simp
    have q8: "take (Suc m) shs' = map ?sh [0..<Suc m]"
      unfolding shs'_def two_updates(1) [OF ilen] x using p8
      by (simp only: upt_last map_append list.map)
    have q9: "Start (shs' ! Suc m) = ?b (Suc m)"
      unfolding shs'_def two_updates(2) [OF ilen] using bi by simp
    have q10: "i + 1 = n \<longrightarrow> End (shs' ! Suc m) = fsize"
      unfolding shs'_def two_updates(2) [OF ilen] using eal by (simp add: e_def)
    have q7: "i + 1 < n \<longrightarrow> e = (i + 1) * part" by (simp add: e_def)
    have q6: "length shs' = nat n" using "1.prems"(6) by (simp add: shs'_def)
    have q45: "1 \<le> i + 1" "i + 1 \<le> n" using True "1.prems"(4) by simp_all
    have pos: "0 < i" using "1.prems"(4) by simp
    have mv': "moveStartToNewline fp \<lparr>Start = start,
          End = if i = n - 1 \<or> fsize < start + part then fsize else start + part\<rparr> = Inr al"
      using mv by (simp add: e1 al_def)
    note ih = "1.IH"(1) [OF True refl refl refl pos mv', unfolded e1 im, folded shs'_def]
    have "splitToShards_loop fp fsize part n (i + 1) e shs' = Inr (map ?sh [0..<nat n])"
      by (rule ih [OF "1.prems"(1,2,3) q45 q6 q7 q8 q9 q10])
    with unf show ?thesis by simp
  qed
qed


lemma splitToShards_plan:
  assumes "fsize = int (length (file_data fp))" and "0 < fsize" and "1 \<le> n"
  shows "splitToShards fp fsize n = Inr (plan (file_data fp) n)"
proof -
  let ?f = "file_data fp"
  define n' where "n' = (if n > fsize then 1 else n)"
  define part where "part = fsize div n'"
  have n1: "1 \<le> n'" "n' \<le> fsize" using assms(2,3) by (simp_all add: n'_def split: if_splits)
  then have p0: "0 < part"
    by (simp add: part_def pos_imp_zdiv_pos_iff)
  have q: "quot fsize n' = part"
    using n1 assms(2) by (simp add: quot_def sgn_if part_def)
  have np: "n' * part \<le> fsize"
  proof -
    have "fsize = n' * (fsize div n') + fsize mod n'" by simp
    moreover have "0 \<le> fsize mod n'" using n1 by simp
    ultimately show ?thesis unfolding part_def by linarith
  qed
  have pl: "part \<le> fsize"
  proof -
    have "1 * part \<le> n' * part" using n1 p0 by (intro mult_right_mono) simp_all
    with np show ?thesis by simp
  qed
  define e where "e = (if 0 = n' - 1 \<or> part > fsize then fsize else part)"
  define shs1 where "shs1 = (replicate (nat n') \<lparr>Start = 0, End = 0\<rparr>)[nat 0 := \<lparr>Start = 0, End = e\<rparr>]"
  have first: "splitToShards_loop fp fsize part n' 0 0 (replicate (nat n') \<lparr>Start = 0, End = 0\<rparr>)
      = splitToShards_loop fp fsize part n' 1 e shs1"
    using n1 by (subst splitToShards_loop.simps) (simp add: Let_def e_def shs1_def)
  have len: "length shs1 = nat n'" by (simp add: shs1_def)
  have s0: "shs1 ! 0 = \<lparr>Start = 0, End = e\<rparr>" using n1 by (simp add: shs1_def)
  have "splitToShards_loop fp fsize part n' 1 e shs1
      = Inr (map (\<lambda>j. \<lparr>Start = boundary ?f part n' j, End = boundary ?f part n' (Suc j)\<rparr>) [0..<nat n'])"
  proof (rule splitToShards_loop_plan [OF assms(1) p0 np _ n1(1) len])
    show "(1 :: int) \<le> 1" by simp
    show "1 < n' \<longrightarrow> e = 1 * part" using pl by (simp add: e_def)
    show "take (nat 1 - 1) shs1
        = map (\<lambda>j. \<lparr>Start = boundary ?f part n' j, End = boundary ?f part n' (Suc j)\<rparr>) [0..<nat 1 - 1]"
      by simp
    show "Start (shs1 ! (nat 1 - 1)) = boundary ?f part n' (nat 1 - 1)"
      by (simp add: s0 boundary_def)
    show "1 = n' \<longrightarrow> End (shs1 ! (nat 1 - 1)) = fsize"
      by (auto simp: s0 e_def)
  qed
  with first have "splitToShards_loop fp fsize part n' 0 0 (replicate (nat n') \<lparr>Start = 0, End = 0\<rparr>)
      = Inr (plan ?f n)"
    using assms(1) by (simp add: plan_def Let_def n'_def part_def)
  then show ?thesis
    using assms(2) n1 p0 q unfolding splitToShards_def Let_def n'_def [symmetric]
    by (simp split: if_splits)
qed


text \<open>
  C6, as stated: the aligned start never exceeds the naive end of the shard, and a shard
  without a newline in \<open>[naive_start, end)\<close> becomes \<open>[end, end)\<close>, which is also where
  the preceding shard ends. In the 9 bytes \<open>abcdefgh\<close> and a newline, cut for three workers,
  the second shard is first \<open>[3, 6)\<close>, which holds no newline. The search reads on to the
  newline at offset 8: the aligned start is 9, past the end 6, and the first shard ends at 9.
\<close>

theorem moveStartToNewline_overshoots:
  "0x0A \<notin> set (take 3 (drop 3 (bytes_of (''abcdefgh'' @ [CHR 0x0A]))))
   \<and> moveStartToNewline (New_fp (bytes_of (''abcdefgh'' @ [CHR 0x0A])) New 3) \<lparr>Start = 3, End = 6\<rparr>
     = Inr \<lparr>Start = 9, End = 6\<rparr>
   \<and> splitToShards (New_fp (bytes_of (''abcdefgh'' @ [CHR 0x0A])) New 3) 9 3
     = Inr [\<lparr>Start = 0, End = 9\<rparr>, \<lparr>Start = 9, End = 9\<rparr>, \<lparr>Start = 9, End = 9\<rparr>]"
  by (simp add: planner_eval) (simp add: numeral_3_eq_3 numeral_2_eq_2)

text \<open>
  C6, amended. For a shard after the first, the aligned start is the byte after the first
  newline at or after the naive start whenever that newline lies before the end of the last
  64 KiB block the search reads, so it can exceed the naive end of the shard; when there is
  no such newline the shard becomes \<open>[end, end)\<close>. In the plan, each shard after the first
  starts at its aligned start and the shard before it ends there.
\<close>

theorem alignment_reads_whole_blocks:
  assumes "fsize = int (length (file_data fp))" and "0 < fsize" and "1 \<le> n"
  shows "(0 < Start s \<and> End s \<le> fsize \<longrightarrow>
            moveStartToNewline fp s = Inr (aligned (file_data fp) s))
       \<and> splitToShards fp fsize n = Inr (plan (file_data fp) n)"
  using assms by (simp add: moveStartToNewline_eq splitToShards_plan)

theorem alignment_reads_whole_blocks_witness:
  "(9 :: int) = int (length (file_data (New_fp (bytes_of (''abcdefgh'' @ [CHR 0x0A])) New 3)))
   \<and> (0 :: int) < 9 \<and> (1 :: int) \<le> 3
   \<and> 0 < Start \<lparr>Start = 3, End = 6\<rparr> \<and> End \<lparr>Start = 3, End = 6\<rparr> \<le> 9
   \<and> moveStartToNewline (New_fp (bytes_of (''abcdefgh'' @ [CHR 0x0A])) New 3) \<lparr>Start = 3, End = 6\<rparr>
       = Inr (aligned (bytes_of (''abcdefgh'' @ [CHR 0x0A])) \<lparr>Start = 3, End = 6\<rparr>)
   \<and> aligned (bytes_of (''abcdefgh'' @ [CHR 0x0A])) \<lparr>Start = 3, End = 6\<rparr> = \<lparr>Start = 9, End = 6\<rparr>
   \<and> splitToShards (New_fp (bytes_of (''abcdefgh'' @ [CHR 0x0A])) New 3) 9 3
       = Inr (plan (bytes_of (''abcdefgh'' @ [CHR 0x0A])) 3)"
proof -
  let ?f = "bytes_of (''abcdefgh'' @ [CHR 0x0A])"
  have a: "(9 :: int) = int (length (file_data (New_fp ?f New 3)))"
    by (simp add: New_fp_def bytes_of_def)
  have b: "(0 :: int) < 9" "(1 :: int) \<le> 3" by simp_all
  have c: "0 < Start \<lparr>Start = 3, End = 6\<rparr> \<and> End \<lparr>Start = 3, End = 6\<rparr> \<le> 9" by simp
  have d: "file_data (New_fp ?f New 3) = ?f" by (simp add: New_fp_def)
  have e: "aligned ?f \<lparr>Start = 3, End = 6\<rparr> = \<lparr>Start = 9, End = 6\<rparr>"
    by (simp add: aligned_def reach_def bytes_of_def Let_def)
  note t = alignment_reads_whole_blocks [OF a b, of "\<lparr>Start = 3, End = 6\<rparr>", unfolded d]
  from t c have "moveStartToNewline (New_fp ?f New 3) \<lparr>Start = 3, End = 6\<rparr>
      = Inr (aligned ?f \<lparr>Start = 3, End = 6\<rparr>)" by blast
  with t a b c e show ?thesis by blast
qed

section \<open>Properties of the scanner and the driver\<close>

subsection \<open>Cancellation\<close>

lemma Err_Some0: "Err (Some 0) = Some Canceled"
  by (simp add: Err_def)

lemma processShard_loop_cancelled:
  "processShard_loop (Some 0) rest local localUniq fp = (Some Canceled, Some 0, local, localUniq, fp)"
  by (subst processShard_loop.simps) (simp add: Err_Some0)

lemma flushProgress_0: "flushProgress 0 fp = (0, fp)"
  by (simp add: flushProgress_def split: option.splits)

lemma processShard_cancelled: "processShard (Some 0) fp s = (Some Canceled, Some 0, fp)"
  by (simp add: processShard_def processShard_loop_cancelled flushProgress_0 Let_def)

lemma run_shards_cancelled:
  "run_shards (Some 0) fp shs first =
     (if first = None \<and> shs \<noteq> [] then Some Canceled else first, fp)"
  by (induction shs arbitrary: first) (simp_all add: processShard_cancelled)

text \<open>
  C9. The loop of the scanner checks the context before it reads a line: entered with a
  cancelled context, in whatever state, it returns the cancellation error at once and
  touches neither the input nor the processor. So a scanner started under a cancelled
  context processes no line, and \<^verbatim>\<open>ProcessFile\<close> on a non-empty file with at least one
  worker returns the cancellation error and leaves the processor as it was.
\<close>

theorem cancelled_before_scanning:
  "processShard_loop (Some 0) rest local localUniq fp = (Some Canceled, Some 0, local, localUniq, fp)
   \<and> processShard (Some 0) fp s = (Some Canceled, Some 0, fp)
   \<and> (fsize = int (length (file_data fp)) \<and> 0 < fsize \<and> 1 \<le> th fp \<longrightarrow>
        ProcessFile (Some 0) fp fsize = (Some Canceled, fp))"
proof -
  have "ProcessFile (Some 0) fp fsize = (Some Canceled, fp)"
    if h: "fsize = int (length (file_data fp))" "0 < fsize" "1 \<le> th fp"
  proof -
    obtain shs where "splitToShards fp fsize (th fp) = Inr shs" "shs \<noteq> []"
      using splitToShards_Inr [OF h] by blast
    with h(2) show ?thesis
      by (simp add: ProcessFile_def run_shards_cancelled)
  qed
  then show ?thesis
    using processShard_loop_cancelled [of rest local localUniq fp] processShard_cancelled [of fp s]
    by blast
qed

lemma S4_length: "int (length S4_input) = 65000"
  by (simp add: S4_input_def length_concat bytes_of_def sum_list_replicate)

theorem cancelled_before_scanning_witness:
  "(65000 :: int) = int (length (file_data (New_fp S4_input New 1))) \<and> (0 :: int) < 65000
   \<and> 1 \<le> th (New_fp S4_input New 1)
   \<and> ProcessFile (Some 0) (New_fp S4_input New 1) 65000 = (Some Canceled, New_fp S4_input New 1)"
proof -
  have a: "(65000 :: int) = int (length (file_data (New_fp S4_input New 1)))"
    by (simp add: New_fp_def S4_length)
  have b: "1 \<le> th (New_fp S4_input New 1)" by (simp add: New_fp_def)
  have h: "(65000 :: int) = int (length (file_data (New_fp S4_input New 1))) \<and> (0 :: int) < 65000
      \<and> 1 \<le> th (New_fp S4_input New 1)"
    by (intro conjI) (rule a, simp, rule b)
  note t = cancelled_before_scanning [of "[]" 0 0 "New_fp S4_input New 1" "\<lparr>Start = 0, End = 0\<rparr>" 65000,
      THEN conjunct2, THEN conjunct2, THEN mp, OF h]
  from h t show ?thesis by blast
qed


subsection \<open>Lines that do not parse\<close>

lemma ReadSlice_line:
  assumes "c \<notin> set l" and "length l < n"
  shows "ReadSlice n (l @ c # rest) c = ((l @ [c], None), rest)"
proof -
  have "take n (l @ c # rest) = l @ c # take (n - Suc (length l)) rest"
    using assms(2) by (simp add: take_Cons')
  then have "IndexByte (take n (l @ c # rest)) c = int (length l)"
    using assms(1) by (simp add: IndexByte_append)
  then show ?thesis by (simp add: ReadSlice_def Let_def)
qed

lemma flushProgress_frame:
  "bitset (snd (flushProgress local fp)) = bitset fp
   \<and> file_data (snd (flushProgress local fp)) = file_data fp
   \<and> th (snd (flushProgress local fp)) = th fp"
  by (simp add: flushProgress_def split: option.splits)

text \<open>
  C7, amended. A line that does not parse as an address and that, with its newline, fits the
  2 MiB buffer of the reader is skipped: the loop goes on with the next line, with the same
  count of new addresses and the same membership set, and returns no error at this line.
\<close>

theorem malformed_line_skipped:
  assumes "Err ctx = None" and "0x0A \<notin> set l" and "length l < bufio_size"
    and "\<not> snd (IPv4ByteToUint32 (trimCRLF (l @ [0x0A])))"
  shows "\<exists>local' fp'.
           processShard_loop ctx (l @ 0x0A # rest) local localUniq fp
             = processShard_loop (tick ctx) rest local' localUniq fp'
         \<and> bitset fp' = bitset fp \<and> file_data fp' = file_data fp \<and> th fp' = th fp"
proof -
  let ?local1 = "local + int (length (l @ [0x0A]))"
  let ?fl = "if ?local1 \<ge> flushEvery then flushProgress ?local1 fp else (?local1, fp)"
  have "processShard_loop ctx (l @ 0x0A # rest) local localUniq fp
          = processShard_loop (tick ctx) rest (fst ?fl) localUniq (snd ?fl)"
    using assms
    by (subst processShard_loop.simps) (simp add: ReadSlice_line Let_def)
  moreover have "bitset (snd ?fl) = bitset fp \<and> file_data (snd ?fl) = file_data fp \<and> th (snd ?fl) = th fp"
    using flushProgress_frame [of ?local1 fp] by simp
  ultimately show ?thesis by blast
qed

lemma trimCRLF_Nil: "trimCRLF [] = []"
  by (subst trimCRLF.simps) simp

lemma trimCRLF_snoc:
  "trimCRLF (xs @ [c]) = (if c = 0x0A \<or> c = 0x0D then trimCRLF xs else xs @ [c])"
  by (subst trimCRLF.simps) (simp add: Let_def nth_append)

lemma trimCRLF_length: "length (trimCRLF b) \<le> length b"
proof (induction b rule: rev_induct)
  case Nil
  then show ?case by (simp add: trimCRLF_Nil)
next
  case (snoc c xs)
  then show ?case by (simp add: trimCRLF_snoc)
qed


lemma trimCRLF_eq: "trimCRLF b = rev (dropWhile (\<lambda>c. c = 0x0A \<or> c = 0x0D) (rev b))"
proof (induction b rule: rev_induct)
  case Nil
  then show ?case by (simp add: trimCRLF_Nil)
next
  case (snoc c xs)
  then show ?case by (simp add: trimCRLF_snoc)
qed

lemma trimCRLF_id: "\<forall>x\<in>set xs. x \<noteq> 0x0A \<and> x \<noteq> 0x0D \<Longrightarrow> trimCRLF xs = xs"
  by (cases "rev xs") (auto simp: trimCRLF_eq)

lemma garbage_rejected: "\<not> snd (IPv4ByteToUint32 (trimCRLF (bytes_of ''garbage'' @ [0x0A])))"
  by (simp add: trimCRLF_eq bytes_of_def IPv4ByteToUint32_def)

theorem malformed_line_skipped_witness:
  "Err None = None \<and> 0x0A \<notin> set (bytes_of ''garbage'') \<and> length (bytes_of ''garbage'') < bufio_size
   \<and> \<not> snd (IPv4ByteToUint32 (trimCRLF (bytes_of ''garbage'' @ [0x0A])))
   \<and> (\<exists>local' fp'.
         processShard_loop None (bytes_of ''garbage'' @ 0x0A # bytes_of ''1.1.1.1'') 0 0 (New_fp S1_input New 1)
           = processShard_loop (tick None) (bytes_of ''1.1.1.1'') local' 0 fp'
       \<and> bitset fp' = bitset (New_fp S1_input New 1)
       \<and> file_data fp' = file_data (New_fp S1_input New 1)
       \<and> th fp' = th (New_fp S1_input New 1))"
proof -
  have a: "Err None = None" by (simp add: Err_def)
  have b: "0x0A \<notin> set (bytes_of ''garbage'')" by (simp add: bytes_of_def)
  have c: "length (bytes_of ''garbage'') < bufio_size" by (simp add: bytes_of_def bufio_size_def)
  note t = malformed_line_skipped [OF a b c garbage_rejected,
      of "bytes_of ''1.1.1.1''" 0 0 "New_fp S1_input New 1"]
  from a b c garbage_rejected t show ?thesis by blast
qed

lemma long_line_length: "length long_line = 2097153"
  by (simp add: long_line_def)

lemma long_line_rejected: "\<not> snd (IPv4ByteToUint32 (trimCRLF long_line))"
proof -
  have "trimCRLF long_line = trimCRLF (replicate 2097152 0x61)"
    by (simp add: long_line_def trimCRLF_snoc)
  also have "\<dots> = replicate 2097152 0x61"
    by (rule trimCRLF_id) simp
  finally show ?thesis by (simp add: IPv4ByteToUint32_def)
qed

lemma long_line_ReadSlice:
  "ReadSlice bufio_size long_line 0x0A = ((replicate 2097152 0x61, Some ErrBufferFull), [0x0A])"
proof -
  have "IndexByte (replicate 2097152 0x61) 0x0A = - 1"
    by (rule IndexByte_notin) simp
  then show ?thesis
    by (simp add: ReadSlice_def long_line_def bufio_size_def)
qed

text \<open>
  C7, as stated: a malformed line of whatever length never makes the scanner return an
  error. A line of 2,097,152 letters \<open>a\<close> does not parse, and it fills the buffer of the
  reader before its newline is seen: \<^verbatim>\<open>ReadSlice\<close> returns \<^verbatim>\<open>bufio.ErrBufferFull\<close>, which
  the scanner and then \<^verbatim>\<open>ProcessFile\<close> return.
\<close>

theorem long_line_error_counterexample:
  "\<not> snd (IPv4ByteToUint32 (trimCRLF long_line))
   \<and> fst (processShard None (New_fp long_line New 1) \<lparr>Start = 0, End = 2097153\<rparr>) = Some ErrBufferFull
   \<and> fst (ProcessFile None (New_fp long_line New 1) 2097153) = Some ErrBufferFull"
proof -
  have l: "processShard_loop None long_line 0 0 (New_fp long_line New 1)
        = (Some ErrBufferFull, None, 0, 0, New_fp long_line New 1)"
    by (subst processShard_loop.simps) (simp add: long_line_ReadSlice Err_def tick_def)
  have s: "NewSectionReader long_line 0 2097153 = long_line"
    using long_line_length by (simp add: NewSectionReader_def)
  have p: "processShard None (New_fp long_line New 1) \<lparr>Start = 0, End = 2097153\<rparr>
        = (Some ErrBufferFull, None, New_fp long_line New 1)"
    unfolding processShard_def
    by (simp add: New_fp_def s) (simp add: l [unfolded New_fp_def] flushProgress_0)
  have q: "splitToShards (New_fp long_line New 1) 2097153 1 = Inr [\<lparr>Start = 0, End = 2097153\<rparr>]"
    by (simp add: splitToShards_def quot_def splitToShards_loop.simps Let_def)
  have "ProcessFile None (New_fp long_line New 1) 2097153 = (Some ErrBufferFull, New_fp long_line New 1)"
    unfolding ProcessFile_def by (simp add: q [unfolded New_fp_def] New_fp_def p [unfolded New_fp_def])
  with p long_line_rejected show ?thesis by simp
qed


section \<open>End to end\<close>

lemma lines_from_line:
  "0x0A \<notin> set l \<Longrightarrow> lines_from cur (l @ 0x0A # rest) = (cur @ l @ [0x0A]) # lines_from [] rest"
  by (induction l arbitrary: cur) auto

lemma lines_from_none: "0x0A \<notin> set xs \<Longrightarrow> lines_from cur xs = []"
  by (induction xs arbitrary: cur) auto

lemma lines_from_append:
  "xs \<noteq> [] \<Longrightarrow> last xs = 0x0A \<Longrightarrow>
     lines_from cur (xs @ ys) = lines_from cur xs @ lines_from [] ys"
proof (induction xs arbitrary: cur)
  case Nil
  then show ?case by simp
next
  case (Cons c cs)
  show ?case
  proof (cases "cs = []")
    case True
    with Cons.prems show ?thesis by simp
  next
    case False
    with Cons.prems have "last cs = 0x0A" by simp
    with False Cons.IH show ?thesis by simp
  qed
qed

lemma complete_lines_append:
  "xs = [] \<or> last xs = 0x0A \<Longrightarrow> complete_lines (xs @ ys) = complete_lines xs @ complete_lines ys"
  by (cases "xs = []") (auto simp: complete_lines_def lines_from_append)

lemma complete_lines_line:
  "0x0A \<notin> set l \<Longrightarrow> complete_lines (l @ 0x0A # rest) = (l @ [0x0A]) # complete_lines rest"
  by (simp add: complete_lines_def lines_from_line)

lemma complete_lines_Nil: "complete_lines [] = []"
  by (simp add: complete_lines_def)

lemma finite_addrs: "finite (addrs bs)"
proof -
  have "addrs bs \<subseteq> (\<lambda>l. the (line_addr l)) ` set (complete_lines bs)"
    by (force simp: addrs_def)
  then show ?thesis by (rule finite_subset) simp
qed

lemma addrs_Nil: "addrs [] = {}"
  by (simp add: addrs_def complete_lines_Nil)

lemma addrs_line:
  "0x0A \<notin> set l \<Longrightarrow>
     addrs (l @ 0x0A # rest) =
       (case line_addr (l @ [0x0A]) of Some a \<Rightarrow> insert a (addrs rest) | None \<Rightarrow> addrs rest)"
  by (auto simp: addrs_def complete_lines_line split: option.splits)

lemma addrs_append:
  "xs = [] \<or> last xs = 0x0A \<Longrightarrow> addrs (xs @ ys) = addrs xs \<union> addrs ys"
  by (auto simp: addrs_def complete_lines_append)

lemma members_SetIfNew:
  "wf_Bitset b \<Longrightarrow> members (snd (SetIfNew b x)) = insert x (members b)"
  by (auto simp: members_def SetIfNew_bit_after)

lemma short_lines_split:
  assumes "short_lines m bs" and "bs \<noteq> []"
  obtains l rest where "bs = l @ 0x0A # rest" and "0x0A \<notin> set l" and "length l < m"
    and "short_lines m rest"
proof -
  from assms have "0x0A \<in> set (take m (drop 0 bs))"
    unfolding short_lines_def by (metis length_greater_0_conv)
  then have "0x0A \<in> set (take m bs)" by simp
  then obtain l r where lr: "take m bs = l @ 0x0A # r" "0x0A \<notin> set l"
    by (meson split_list_first)
  have "length (take m bs) \<le> m" by simp
  with lr(1) have len: "length l < m" by simp
  have bs: "bs = l @ 0x0A # (r @ drop m bs)"
    using lr(1) by (metis append_Cons append_assoc append_take_drop_id)
  have "short_lines m (r @ drop m bs)"
    unfolding short_lines_def
  proof (intro allI impI)
    fix p assume "p < length (r @ drop m bs)"
    then have "p + Suc (length l) < length bs" by (subst bs) simp
    with assms(1) have "0x0A \<in> set (take m (drop (p + Suc (length l)) bs))"
      by (simp add: short_lines_def)
    moreover have "drop (p + Suc (length l)) bs = drop p (r @ drop m bs)"
      by (subst bs) (simp add: drop_Cons')
    ultimately show "0x0A \<in> set (take m (drop p (r @ drop m bs)))" by simp
  qed
  with bs lr(2) len show ?thesis using that by blast
qed

lemma Err_None: "Err None = None" by (simp add: Err_def)

lemma tick_None: "tick None = None" by (simp add: tick_def)

lemma ReadSlice_Nil: "ReadSlice (Suc n) [] c = (([], Some EOF), [])"
  by (simp add: ReadSlice_def)

lemma bufio_size_pos: "bufio_size = Suc (bufio_size - 1)"
  by (simp add: bufio_size_def)

lemma processShard_loop_Nil:
  "processShard_loop None [] local lu fp = (None, None, local, lu, fp)"
  by (subst processShard_loop.simps, subst bufio_size_pos)
     (simp add: Err_None tick_None ReadSlice_Nil Let_def del: One_nat_def)

lemma card_new:
  assumes "finite A"
  shows "card (insert a A - M) = (if a \<in> M then 0 else 1) + card (A - insert a M)"
proof (cases "a \<in> M")
  case True
  then have "insert a A - M = A - insert a M" by auto
  then have "card (insert a A - M) = card (A - insert a M)" by (rule arg_cong)
  with True show ?thesis by (simp only: if_True add_0)
next
  case False
  then have "insert a A - M = insert a (A - insert a M)" by auto
  then have "card (insert a A - M) = card (insert a (A - insert a M))" by (rule arg_cong)
  also have "\<dots> = Suc (card (A - insert a M))"
  proof (rule card_insert_disjoint)
    show "finite (A - insert a M)" using assms by (rule finite_Diff)
    show "a \<notin> A - insert a M" by blast
  qed
  finally show ?thesis using False by (simp only: if_False plus_1_eq_Suc)
qed

lemma processShard_loop_scan:
  assumes "short_lines bufio_size rest" and "wf_Bitset (bitset fp)"
  shows "\<exists>local' fp'.
           processShard_loop None rest local lu fp
             = (None, None, local', lu + of_nat (card (addrs rest - members (bitset fp))), fp')
         \<and> unique (bitset fp') = unique (bitset fp) \<and> scanned fp (addrs rest) fp'"
  using assms
proof (induction "length rest" arbitrary: rest local lu fp rule: less_induct)
  case less
  show ?case
  proof (cases "rest = []")
    case True
    then show ?thesis
      using less.prems by (simp add: processShard_loop_Nil addrs_Nil scanned_def)
  next
    case False
    from less.prems(1) False obtain l rest' where r: "rest = l @ 0x0A # rest'" "0x0A \<notin> set l"
      "length l < bufio_size" "short_lines bufio_size rest'"
      by (rule short_lines_split)
    let ?line = "l @ [0x0A]"
    let ?local1 = "local + int (length ?line)"
    let ?fl = "if ?local1 \<ge> flushEvery then flushProgress ?local1 fp else (?local1, fp)"
    let ?M = "members (bitset fp)"
    have fr: "bitset (snd ?fl) = bitset fp" "file_data (snd ?fl) = file_data fp" "th (snd ?fl) = th fp"
      using flushProgress_frame [of ?local1 fp] by simp_all
    have shorter: "length rest' < length rest" using r(1) by simp
    show ?thesis
    proof (cases "line_addr ?line")
      case None
      then have np: "\<not> snd (IPv4ByteToUint32 (trimCRLF ?line))"
        by (simp add: line_addr_def Let_def split: if_splits)
      have step: "processShard_loop None rest local lu fp
          = processShard_loop None rest' (fst ?fl) lu (snd ?fl)"
        unfolding r(1) using r(2,3) np
        by (subst processShard_loop.simps) (simp add: Err_None tick_None ReadSlice_line Let_def)
      from less.hyps [OF shorter r(4), of "snd ?fl" "fst ?fl" lu] less.prems(2) fr
      obtain local' fp' where ih: "processShard_loop None rest' (fst ?fl) lu (snd ?fl)
            = (None, None, local', lu + of_nat (card (addrs rest' - ?M)), fp')"
          "unique (bitset fp') = unique (bitset fp)" "scanned (snd ?fl) (addrs rest') fp'"
        by auto
      have "addrs rest = addrs rest'" using None r(1,2) by (simp add: addrs_line)
      with step ih fr show ?thesis by (auto simp: scanned_def)
    next
      case (Some a)
      then have p: "snd (IPv4ByteToUint32 (trimCRLF ?line))" "fst (IPv4ByteToUint32 (trimCRLF ?line)) = a"
        by (simp_all add: line_addr_def Let_def split: if_splits)
      let ?sn = "SetIfNew (bitset fp) a"
      let ?lu' = "if fst ?sn then lu + 1 else lu"
      let ?fp1 = "(snd ?fl)\<lparr>bitset := snd ?sn\<rparr>"
      have step: "processShard_loop None rest local lu fp
          = processShard_loop None rest' (fst ?fl) ?lu' ?fp1"
        unfolding r(1) using r(2,3) p
        by (subst processShard_loop.simps)
           (simp add: Err_None tick_None ReadSlice_line Let_def flushProgress_frame)
      have wf1: "wf_Bitset (bitset ?fp1)" using less.prems(2) by (simp add: SetIfNew_wf)
      have m1: "members (bitset ?fp1) = insert a ?M"
        using less.prems(2) by (simp add: members_SetIfNew)
      have u1: "unique (bitset ?fp1) = unique (bitset fp)" by (simp add: SetIfNew_unique)
      from less.hyps [OF shorter r(4) wf1, of "fst ?fl" ?lu']
      obtain local' fp' where ih: "processShard_loop None rest' (fst ?fl) ?lu' ?fp1
            = (None, None, local', ?lu' + of_nat (card (addrs rest' - insert a ?M)), fp')"
          "unique (bitset fp') = unique (bitset ?fp1)" "scanned ?fp1 (addrs rest') fp'"
        unfolding m1 by auto
      have A: "addrs rest = insert a (addrs rest')" using Some r(1,2) by (simp add: addrs_line)
      have "fst ?sn = (a \<notin> ?M)" by (simp add: SetIfNew_fst members_def)
      then have "?lu' + of_nat (card (addrs rest' - insert a ?M))
          = lu + of_nat (card (addrs rest - ?M))"
        unfolding A card_new [OF finite_addrs] by simp
      moreover have "scanned fp (addrs rest) fp'"
        using ih(3) m1 fr A by (auto simp: scanned_def)
      ultimately show ?thesis using step ih(1,2) u1 by auto
    qed
  qed
qed

lemma members_AddUnique: "members (AddUnique b n) = members b"
  by (simp add: members_def AddUnique_bit)

lemma unique_AddUnique: "unique (AddUnique b n) = unique b + n"
  by (simp add: AddUnique_def)

lemma scanned_trans:
  "scanned fp A fp1 \<Longrightarrow> scanned fp1 B fp2 \<Longrightarrow> scanned fp (A \<union> B) fp2"
  by (auto simp: scanned_def)

lemma processShard_scan:
  assumes "short_lines bufio_size (sect (file_data fp) s)" and "wf_Bitset (bitset fp)"
  shows "\<exists>fp'. processShard None fp s = (None, None, fp')
         \<and> unique (bitset fp')
             = unique (bitset fp) + of_nat (card (addrs (sect (file_data fp) s) - members (bitset fp)))
         \<and> scanned fp (addrs (sect (file_data fp) s)) fp'"
proof -
  let ?r = "sect (file_data fp) s"
  let ?k = "of_nat (card (addrs ?r - members (bitset fp))) :: uint64"
  from processShard_loop_scan [OF assms, of 0 0]
  obtain local' fp1 where l: "processShard_loop None ?r 0 0 fp = (None, None, local', ?k, fp1)"
      "unique (bitset fp1) = unique (bitset fp)" "scanned fp (addrs ?r) fp1"
    by auto
  let ?fp2 = "if ?k > 0 then fp1\<lparr>bitset := AddUnique (bitset fp1) ?k\<rparr> else fp1"
  let ?fp' = "snd (flushProgress local' ?fp2)"
  have p: "processShard None fp s = (None, None, ?fp')"
    using l(1) by (simp add: processShard_def sect_def Let_def)
  have u2: "unique (bitset ?fp2) = unique (bitset fp) + ?k"
    using l(2) by (cases "?k = 0") (simp_all add: unique_AddUnique word_gt_0)
  have s2: "scanned fp (addrs ?r) ?fp2"
    using l(3) by (simp add: scanned_def members_AddUnique AddUnique_wf)
  have "unique (bitset ?fp') = unique (bitset fp) + ?k"
    using u2 flushProgress_frame [of local' ?fp2] by simp
  moreover have "scanned fp (addrs ?r) ?fp'"
    using s2 flushProgress_frame [of local' ?fp2] by (simp add: scanned_def)
  ultimately show ?thesis using p by blast
qed

lemma card_two:
  assumes "finite A" and "finite B"
  shows "card (A - M) + card (B - (M \<union> A)) = card ((A \<union> B) - M)"
proof -
  have "(A \<union> B) - M = (A - M) \<union> (B - (M \<union> A))" by blast
  then have "card ((A \<union> B) - M) = card ((A - M) \<union> (B - (M \<union> A)))" by (rule arg_cong)
  also have "\<dots> = card (A - M) + card (B - (M \<union> A))"
  proof (rule card_Un_disjoint)
    show "finite (A - M)" using assms(1) by (rule finite_Diff)
    show "finite (B - (M \<union> A))" using assms(2) by (rule finite_Diff)
    show "(A - M) \<inter> (B - (M \<union> A)) = {}" by blast
  qed
  finally show ?thesis by (rule sym)
qed

lemma finite_addrs_of: "finite (addrs_of f shs)"
  by (simp add: addrs_of_def finite_addrs)

lemma run_shards_scan:
  assumes "\<forall>s \<in> set shs. short_lines bufio_size (sect (file_data fp) s)" and "wf_Bitset (bitset fp)"
  shows "\<exists>fp'. run_shards None fp shs first = (first, fp')
         \<and> unique (bitset fp')
             = unique (bitset fp) + of_nat (card (addrs_of (file_data fp) shs - members (bitset fp)))
         \<and> scanned fp (addrs_of (file_data fp) shs) fp'"
  using assms
proof (induction shs arbitrary: fp first)
  case Nil
  then show ?case by (simp add: addrs_of_def scanned_def)
next
  case (Cons s ss)
  let ?f = "file_data fp"
  let ?A = "addrs (sect ?f s)"
  let ?M = "members (bitset fp)"
  from Cons.prems have sl: "short_lines bufio_size (sect ?f s)" by simp
  from processShard_scan [OF sl Cons.prems(2)]
  obtain fp1 where p: "processShard None fp s = (None, None, fp1)"
      "unique (bitset fp1) = unique (bitset fp) + of_nat (card (?A - ?M))"
      "scanned fp ?A fp1"
    by auto
  have f1: "file_data fp1 = ?f" "wf_Bitset (bitset fp1)" "members (bitset fp1) = ?M \<union> ?A"
    using p(3) by (simp_all add: scanned_def)
  have "\<forall>s \<in> set ss. short_lines bufio_size (sect (file_data fp1) s)"
    using Cons.prems(1) f1(1) by simp
  from Cons.IH [OF this f1(2), of first]
  obtain fp' where r: "run_shards None fp1 ss first = (first, fp')"
      "unique (bitset fp')
         = unique (bitset fp1) + of_nat (card (addrs_of ?f ss - (?M \<union> ?A)))"
      "scanned fp1 (addrs_of ?f ss) fp'"
    unfolding f1 by auto
  have run: "run_shards None fp (s # ss) first = (first, fp')"
    using p(1) r(1) by simp
  have A: "addrs_of ?f (s # ss) = ?A \<union> addrs_of ?f ss" by (simp add: addrs_of_def)
  have "unique (bitset fp') = unique (bitset fp) + of_nat (card (addrs_of ?f (s # ss) - ?M))"
    unfolding A card_two [OF finite_addrs finite_addrs_of, symmetric] r(2) p(2)
    by (simp only: of_nat_add add.assoc)
  moreover have "scanned fp (addrs_of ?f (s # ss)) fp'"
    unfolding A using p(3) r(3) by (rule scanned_trans)
  ultimately show ?case using run by blast
qed

lemma IndexByte_nth: "0 \<le> IndexByte xs c \<Longrightarrow> xs ! nat (IndexByte xs c) = c"
proof -
  assume "0 \<le> IndexByte xs c"
  then have "c \<in> set xs" by (simp add: IndexByte_nonneg_iff)
  then obtain l r where "xs = l @ c # r" "c \<notin> set l" by (meson split_list_first)
  then show ?thesis by (simp add: IndexByte_append)
qed

lemma IndexByte_drop:
  assumes "int d \<le> IndexByte xs c"
  shows "IndexByte (drop d xs) c = IndexByte xs c - int d"
proof -
  from assms have "0 \<le> IndexByte xs c" by simp
  then have "c \<in> set xs" by (simp add: IndexByte_nonneg_iff)
  then obtain l r where x: "xs = l @ c # r" "c \<notin> set l" by (meson split_list_first)
  with assms have d: "d \<le> length l" by (simp add: IndexByte_append)
  have "c \<notin> set (drop d l)" using x(2) by (meson in_set_dropD)
  then have "IndexByte (drop d l @ c # r) c = int (length (drop d l))" by (rule IndexByte_append)
  with d x show ?thesis by (simp add: IndexByte_append)
qed

lemma short_lines_first:
  assumes "short_lines m f" and "p < length f"
  shows "0 \<le> IndexByte (drop p f) 0x0A" and "IndexByte (drop p f) 0x0A < int m"
proof -
  let ?X = "drop p f"
  from assms have "0x0A \<in> set (take m ?X)" by (simp add: short_lines_def)
  then have t: "0 \<le> IndexByte (take m ?X) 0x0A" by (simp add: IndexByte_nonneg_iff)
  then have e: "IndexByte ?X 0x0A = IndexByte (take m ?X) 0x0A"
    using IndexByte_take_drop [of ?X "0x0A" m] by simp
  show "0 \<le> IndexByte ?X 0x0A" using t e by simp
  have "length (take m ?X) \<le> m" by simp
  then show "IndexByte ?X 0x0A < int m"
    using IndexByte_bounds [of "take m ?X" "0x0A"] e by linarith
qed

lemma short_lines_last:
  assumes "short_lines m f" and "f \<noteq> []"
  shows "last f = 0x0A"
proof -
  have "length f - 1 < length f" using assms(2) by simp
  with assms(1) have "0x0A \<in> set (take m (drop (length f - 1) f))" by (simp add: short_lines_def)
  moreover have "drop (length f - 1) f = [last f]"
    using assms(2) by (metis append_butlast_last_id append_eq_conv_conj length_butlast)
  ultimately show ?thesis by (cases m) auto
qed

lemma short_lines_mono: "short_lines m f \<Longrightarrow> m \<le> m' \<Longrightarrow> short_lines m' f"
  unfolding short_lines_def by (meson set_take_subset_set_take subsetD)

lemma nl_after_cut:
  assumes "short_lines m f" and "p < length f"
  shows "is_cut f (nl_after f p)" and "p < nl_after f p"
proof -
  let ?k = "nat (IndexByte (drop p f) 0x0A)"
  have k0: "0 \<le> IndexByte (drop p f) 0x0A" by (rule short_lines_first [OF assms])
  have "IndexByte (drop p f) 0x0A < int (length (drop p f))"
    using IndexByte_bounds [of "drop p f" "0x0A"] by simp
  with k0 have kl: "?k < length (drop p f)" by linarith
  then have pk: "p + ?k < length f" by simp
  have "drop p f ! ?k = 0x0A" by (rule IndexByte_nth [OF k0])
  then have nl: "f ! (p + ?k) = 0x0A" using pk by simp
  have "take (Suc (p + ?k)) f = take (p + ?k) f @ [f ! (p + ?k)]"
    using pk by (rule take_Suc_conv_app_nth)
  then have "last (take (nl_after f p) f) = 0x0A"
    using nl by (simp add: nl_after_def)
  then show "is_cut f (nl_after f p)"
    using pk by (simp add: is_cut_def nl_after_def)
  show "p < nl_after f p" by (simp add: nl_after_def)
qed

lemma nl_after_mono:
  assumes "short_lines m f" and "p \<le> q" and "q < length f"
  shows "nl_after f p \<le> nl_after f q"
proof -
  let ?k = "IndexByte (drop p f) 0x0A"
  have p: "p < length f" using assms(2,3) by simp
  have k0: "0 \<le> ?k" by (rule short_lines_first [OF assms(1) p])
  have q0: "0 \<le> IndexByte (drop q f) 0x0A" by (rule short_lines_first [OF assms(1,3)])
  show ?thesis
  proof (cases "int (q - p) \<le> ?k")
    case True
    have "drop q f = drop (q - p) (drop p f)" using assms(2) by simp
    then have "IndexByte (drop q f) 0x0A = ?k - int (q - p)"
      using IndexByte_drop [OF True] by simp
    then show ?thesis using assms(2) True k0 by (simp add: nl_after_def)
  next
    case False
    then have "p + nat ?k < q" using k0 by linarith
    then show ?thesis by (simp add: nl_after_def)
  qed
qed

lemma aligned_short:
  assumes "short_lines 65536 f" and "0 \<le> Start s" and "nat (Start s) < length f"
    and "Start s < End s"
  shows "Start (aligned f s) = int (nl_after f (nat (Start s)))"
proof -
  let ?k = "IndexByte (drop (nat (Start s)) f) 0x0A"
  have k: "0 \<le> ?k" "?k < 65536"
    using short_lines_first [OF assms(1,3)] by simp_all
  have "1 \<le> (End s - Start s + 65535) div 65536" using assms(4) by simp
  then have "Start s + 65536 \<le> reach s" by (simp add: reach_def)
  with k have "0 \<le> ?k \<and> Start s + ?k < reach s" by simp
  then show ?thesis using assms(2) k(1) by (simp add: aligned_def Let_def nl_after_def)
qed

lemma sect_nat: "a \<le> c \<Longrightarrow> sect f \<lparr>Start = int a, End = int c\<rparr> = take (c - a) (drop a f)"
  by (simp add: sect_def NewSectionReader_def nat_diff_distrib)

lemma short_lines_sect:
  assumes "short_lines m f" and "is_cut f c"
  shows "short_lines m (take (c - a) (drop a f))"
  unfolding short_lines_def
proof (intro allI impI)
  fix p
  assume p: "p < length (take (c - a) (drop a f))"
  have c: "c \<le> length f" using assms(2) by (simp add: is_cut_def)
  from p c have pc: "a + p < c" by simp
  let ?X = "drop (a + p) f"
  let ?L = "c - (a + p)"
  have d: "drop p (take (c - a) (drop a f)) = take ?L ?X"
    by (simp add: drop_take add.commute)
  have L: "0 < ?L" "?L \<le> length ?X" using pc c by simp_all
  have ne: "take c f \<noteq> []" using pc c by auto
  with assms(2) have "last (take c f) = 0x0A" by (simp add: is_cut_def)
  moreover have "length (take c f) = c" using c by simp
  then have "last (take c f) = f ! (c - 1)"
    using pc last_conv_nth [OF ne] by simp
  ultimately have "f ! (c - 1) = 0x0A" by simp
  then have x: "?X ! (?L - 1) = 0x0A" using pc c by simp
  have "0x0A \<in> set (take m (take ?L ?X))"
  proof (cases "m \<le> ?L")
    case True
    have "a + p < length f" using pc c by simp
    with assms(1) have "0x0A \<in> set (take m ?X)" by (simp add: short_lines_def)
    with True show ?thesis by (simp add: min_absorb1)
  next
    case False
    then have "take m (take ?L ?X) = take ?L ?X" by simp
    moreover have "take ?L ?X ! (?L - 1) = 0x0A" using x L by simp
    moreover have "?L - 1 < length (take ?L ?X)" using L by simp
    ultimately show ?thesis by (metis nth_mem)
  qed
  with d show "0x0A \<in> set (take m (drop p (take (c - a) (drop a f))))" by simp
qed

lemma addrs_of_append: "addrs_of f (xs @ ys) = addrs_of f xs \<union> addrs_of f ys"
  by (auto simp: addrs_of_def)

lemma addrs_chain:
  assumes "\<And>j. j \<le> n \<Longrightarrow> is_cut f (B j)" and "\<And>j. j < n \<Longrightarrow> B j \<le> B (Suc j)"
    and "B 0 = 0" and "k \<le> n"
  shows "addrs_of f (map (\<lambda>j. \<lparr>Start = int (B j), End = int (B (Suc j))\<rparr>) [0..<k])
           = addrs (take (B k) f)"
  using assms(4)
proof (induction k)
  case 0
  then show ?case by (simp add: addrs_of_def assms(3) addrs_Nil)
next
  case (Suc k)
  then have k: "k < n" "k \<le> n" by simp_all
  have le: "B k \<le> B (Suc k)" by (rule assms(2) [OF k(1)])
  have cut: "take (B k) f = [] \<or> last (take (B k) f) = 0x0A"
    using assms(1) [OF k(2)] by (simp add: is_cut_def)
  have "take (B (Suc k)) f = take (B k) f @ take (B (Suc k) - B k) (drop (B k) f)"
    using le by (metis le_add_diff_inverse take_add)
  then have "addrs (take (B (Suc k)) f)
      = addrs (take (B k) f) \<union> addrs (take (B (Suc k) - B k) (drop (B k) f))"
    using addrs_append [OF cut] by simp
  moreover have "addrs_of f [\<lparr>Start = int (B k), End = int (B (Suc k))\<rparr>]
      = addrs (take (B (Suc k) - B k) (drop (B k) f))"
    using le by (simp add: addrs_of_def sect_nat)
  ultimately show ?case
    using Suc.IH [OF k(2)] by (simp only: upt_last map_append list.map addrs_of_append)
qed

lemma plan_cuts:
  assumes H: "short_lines 65536 f" and ne: "f \<noteq> []" and n: "1 \<le> n"
  defines "n' \<equiv> (if n > int (length f) then 1 else n)"
  shows "plan f n = map (\<lambda>j. \<lparr>Start = int (cut_at f n j), End = int (cut_at f n (Suc j))\<rparr>) [0..<nat n']"
    and "\<And>j. j \<le> nat n' \<Longrightarrow> is_cut f (cut_at f n j)"
    and "\<And>j. j < nat n' \<Longrightarrow> cut_at f n j \<le> cut_at f n (Suc j)"
    and "cut_at f n 0 = 0" and "cut_at f n (nat n') = length f"
proof -
  define part where "part = int (length f) div n'"
  have len: "0 < int (length f)" using ne by simp
  have len1: "1 \<le> int (length f)" using ne by (cases f) simp_all
  have n1: "1 \<le> n'" "n' \<le> int (length f)"
  proof -
    show "1 \<le> n'" using n by (cases "n > int (length f)") (simp_all add: n'_def)
    show "n' \<le> int (length f)"
    proof (cases "n > int (length f)")
      case True
      then have "n' = 1" by (simp add: n'_def)
      with len1 show ?thesis by simp
    next
      case False
      then have "n' = n" by (simp add: n'_def)
      with False show ?thesis by simp
    qed
  qed
  then have p0: "0 < part" by (simp add: part_def pos_imp_zdiv_pos_iff)
  have np: "n' * part \<le> int (length f)"
  proof -
    have "int (length f) = n' * (int (length f) div n') + int (length f) mod n'" by simp
    moreover have "0 \<le> int (length f) mod n'" using n1 by simp
    ultimately show ?thesis unfolding part_def by linarith
  qed
  have c0: "cut_at f n 0 = 0" by (simp add: cut_at_def Let_def)
  have cn: "cut_at f n j = length f" if "nat n' \<le> j" for j
    using that n1 by (auto simp: cut_at_def Let_def n'_def [symmetric])
  have cm: "cut_at f n j = nl_after f (j * nat part)" if "0 < j" "j < nat n'" for j
    using that by (simp add: cut_at_def Let_def n'_def [symmetric] part_def)
  have inside: "j * nat part < length f" if "j < nat n'" for j
  proof -
    have "int j + 1 \<le> n'" using that by linarith
    then have "(int j + 1) * part \<le> n' * part" using p0 by (intro mult_right_mono) simp_all
    with np have "int j * part + part \<le> int (length f)" by (simp add: distrib_right)
    with p0 have "int j * part < int (length f)" by linarith
    moreover have "int (j * nat part) = int j * part" using p0 by simp
    ultimately show ?thesis by linarith
  qed
  have b: "boundary f part n' j = int (cut_at f n j)" for j
  proof (cases "j = 0")
    case True
    then show ?thesis by (simp add: boundary_def c0)
  next
    case j0: False
    show ?thesis
    proof (cases "nat n' \<le> j")
      case True
      then have "n' \<le> int j" by linarith
      with j0 True show ?thesis by (simp add: boundary_def cn)
    next
      case False
      then have jn: "j < nat n'" "\<not> n' \<le> int j" by linarith+
      let ?s = "naive (int (length f)) part n' (int j)"
      have st: "Start ?s = int j * part" by (simp add: naive_def)
      have nst: "nat (Start ?s) = j * nat part" using p0 by (simp add: st nat_mult_distrib)
      have a: "0 \<le> Start ?s" using p0 by (simp add: st)
      have b: "nat (Start ?s) < length f" using inside [OF jn(1)] by (simp add: nst)
      have c: "Start ?s < End ?s"
      proof (cases "int j = n' - 1")
        case True
        have "int j * part < int (length f)" using b a st by linarith
        with True show ?thesis by (simp add: naive_def)
      next
        case False
        then show ?thesis using p0 by (simp add: naive_def distrib_right)
      qed
      have "Start (aligned f ?s) = int (nl_after f (j * nat part))"
        using aligned_short [OF H a b c] by (simp add: nst)
      with j0 jn show ?thesis by (simp add: boundary_def cm)
    qed
  qed
  show "plan f n = map (\<lambda>j. \<lparr>Start = int (cut_at f n j), End = int (cut_at f n (Suc j))\<rparr>) [0..<nat n']"
    unfolding plan_def Let_def n'_def [symmetric] part_def [symmetric] by (simp add: b)
  show "cut_at f n 0 = 0" by (rule c0)
  show "cut_at f n (nat n') = length f" by (rule cn) simp
  have last: "is_cut f (length f)"
    using short_lines_last [OF H ne] by (simp add: is_cut_def)
  show "is_cut f (cut_at f n j)" if "j \<le> nat n'" for j
  proof (cases "j = 0")
    case True
    then show ?thesis by (simp add: c0 is_cut_def)
  next
    case j0: False
    show ?thesis
    proof (cases "nat n' \<le> j")
      case True
      then show ?thesis by (simp add: cn last)
    next
      case False
      then have jn: "j < nat n'" by simp
      with j0 show ?thesis
        using nl_after_cut(1) [OF H inside [OF jn]] by (simp add: cm)
    qed
  qed
  show "cut_at f n j \<le> cut_at f n (Suc j)" if "j < nat n'" for j
  proof (cases "Suc j < nat n'")
    case False
    with that have e: "cut_at f n (Suc j) = length f" by (simp add: cn)
    have "is_cut f (cut_at f n j)"
    proof (cases "j = 0")
      case True
      then show ?thesis by (simp add: c0 is_cut_def)
    next
      case False
      with that show ?thesis
        using nl_after_cut(1) [OF H inside [OF that]] by (simp add: cm)
    qed
    then show ?thesis by (simp add: e is_cut_def)
  next
    case True
    show ?thesis
    proof (cases "j = 0")
      case True
      then show ?thesis by (simp add: c0)
    next
      case False
      have "j * nat part \<le> Suc j * nat part" by simp
      then have "nl_after f (j * nat part) \<le> nl_after f (Suc j * nat part)"
        using inside [OF True] by (rule nl_after_mono [OF H])
      with False that True show ?thesis by (simp add: cm)
    qed
  qed
qed

lemma New_fp_fields:
  "file_data (New_fp f b n) = f" "bitset (New_fp f b n) = b" "th (New_fp f b n) = n"
  by (simp_all add: New_fp_def)

lemma plan_sections:
  assumes H: "short_lines 65536 f" and ne: "f \<noteq> []" and n: "1 \<le> n"
  shows "\<forall>s \<in> set (plan f n). short_lines bufio_size (sect f s)"
    and "addrs_of f (plan f n) = addrs f"
proof -
  define n' where "n' = (if n > int (length f) then 1 else n)"
  let ?sh = "\<lambda>j. \<lparr>Start = int (cut_at f n j), End = int (cut_at f n (Suc j))\<rparr>"
  note pc = plan_cuts [OF H ne n, folded n'_def]
  show "\<forall>s \<in> set (plan f n). short_lines bufio_size (sect f s)"
  proof
    fix s assume "s \<in> set (plan f n)"
    then obtain j where j: "j < nat n'" "s = ?sh j" by (auto simp: pc(1))
    have "short_lines 65536 (sect f s)"
      unfolding j(2) sect_nat [OF pc(3) [OF j(1)]]
      using H pc(2) [of "Suc j"] j(1) by (intro short_lines_sect) simp_all
    then show "short_lines bufio_size (sect f s)"
      by (rule short_lines_mono) (simp add: bufio_size_def)
  qed
  have "addrs_of f (plan f n) = addrs (take (cut_at f n (nat n')) f)"
    unfolding pc(1) by (rule addrs_chain [OF pc(2) pc(3) pc(4) order_refl])
  then show "addrs_of f (plan f n) = addrs f" by (simp add: pc(5))
qed

text \<open>
  The scanners of the plan may finish in any order: run one after the other in any order
  \<open>shs\<close> of the shards of the plan, they leave the same count.
\<close>

lemma run_shards_any_order:
  assumes H: "short_lines 65536 (file_data fp)" and ne: "file_data fp \<noteq> []" and n: "1 \<le> th fp"
    and wf: "wf_Bitset (bitset fp)" and perm: "set shs = set (plan (file_data fp) (th fp))"
  shows "\<exists>fp'. run_shards None fp shs None = (None, fp')
         \<and> UniqueCount fp'
             = unique (bitset fp) + of_nat (card (addrs (file_data fp) - members (bitset fp)))
         \<and> scanned fp (addrs (file_data fp)) fp'"
proof -
  let ?f = "file_data fp"
  note ps = plan_sections [OF H ne n]
  have sl: "\<forall>s \<in> set shs. short_lines bufio_size (sect ?f s)"
    using ps(1) perm by simp
  have A: "addrs_of ?f shs = addrs ?f"
    using ps(2) perm by (simp add: addrs_of_def)
  from run_shards_scan [OF sl wf, of None] show ?thesis
    unfolding A by (auto simp: UniqueCount_def GetUniqueCount_def)
qed

lemma ProcessFile_short_lines:
  assumes H: "short_lines 65536 (file_data fp)" and ne: "file_data fp \<noteq> []" and n: "1 \<le> th fp"
    and wf: "wf_Bitset (bitset fp)"
  shows "\<exists>fp'. ProcessFile None fp (int (length (file_data fp))) = (None, fp')
         \<and> UniqueCount fp'
             = unique (bitset fp) + of_nat (card (addrs (file_data fp) - members (bitset fp)))
         \<and> scanned fp (addrs (file_data fp)) fp'"
proof -
  let ?f = "file_data fp"
  have len: "0 < int (length ?f)" using ne by simp
  have sp: "splitToShards fp (int (length ?f)) (th fp) = Inr (plan ?f (th fp))"
    by (rule splitToShards_plan [OF refl len n])
  from run_shards_any_order [OF H ne n wf refl] len sp show ?thesis
    by (simp add: ProcessFile_def)
qed

lemma short_lines_small:
  assumes "length f \<le> m" and "f \<noteq> []" and "last f = 0x0A"
  shows "short_lines m f"
  unfolding short_lines_def
proof (intro allI impI)
  fix p assume p: "p < length f"
  then have "drop p f \<noteq> []" by simp
  moreover have "last (drop p f) = 0x0A" using p assms(3) by simp
  ultimately have "0x0A \<in> set (drop p f)" by (metis last_in_set)
  moreover have "take m (drop p f) = drop p f" using assms(1) by simp
  ultimately show "0x0A \<in> set (take m (drop p f))" by simp
qed

lemma S1_length: "length S1_input = 49"
  by (simp add: S1_input_def bytes_of_def)

lemma S1_short: "short_lines 65536 S1_input"
  by (rule short_lines_small) (simp_all add: S1_input_def bytes_of_def)

lemma S1_addrs: "addrs S1_input = {0x01010101, 0x02020202, 0xFFFFFFFF}"
proof -
  define l1 where "l1 = bytes_of (''1.1.1.1'' @ [CHR 0x0A])"
  define l2 where "l2 = bytes_of (''2.2.2.2'' @ [CHR 0x0D, CHR 0x0A])"
  define l3 where "l3 = bytes_of (''garbage'' @ [CHR 0x0A])"
  define l5 where "l5 = bytes_of (''255.255.255.255'' @ [CHR 0x0A])"
  have lines: "complete_lines S1_input = [l1, l2, l3, l1, l5]"
    by (simp add: complete_lines_def S1_input_def bytes_of_def l1_def l2_def l3_def l5_def)
  have a: "line_addr l1 = Some 0x01010101" "line_addr l2 = Some 0x02020202"
    "line_addr l3 = None" "line_addr l5 = Some 0xFFFFFFFF"
    by (simp_all add: line_addr_def trimCRLF_eq bytes_of_def IPv4ByteToUint32_def Let_def
        dots_count l1_def l2_def l3_def l5_def)
  show ?thesis unfolding addrs_def lines by (auto simp: a)
qed

lemma unique_New: "unique New = 0"
  by (simp add: New_def)

lemma members_New: "members New = {}"
  by (simp add: members_def bit_of_New)

text \<open>
  C1. On the input of scenario S1, with a context that is never cancelled and any number of
  workers from 1 on, \<^verbatim>\<open>ProcessFile\<close> returns no error and leaves a unique count of 3.
\<close>

theorem S1_unique_count:
  assumes "1 \<le> n"
  shows "fst (ProcessFile None (New_fp S1_input New n) 49) = None
       \<and> UniqueCount (snd (ProcessFile None (New_fp S1_input New n) 49)) = 3"
proof -
  let ?fp = "New_fp S1_input New n"
  have "\<exists>fp'. ProcessFile None ?fp (int (length (file_data ?fp))) = (None, fp')
         \<and> UniqueCount fp'
             = unique (bitset ?fp) + of_nat (card (addrs (file_data ?fp) - members (bitset ?fp)))
         \<and> scanned ?fp (addrs (file_data ?fp)) fp'"
  proof (rule ProcessFile_short_lines)
    show "short_lines 65536 (file_data ?fp)" by (simp add: New_fp_fields S1_short)
    show "file_data ?fp \<noteq> []" using S1_length by (auto simp: New_fp_fields)
    show "1 \<le> th ?fp" using assms by (simp add: New_fp_fields)
    show "wf_Bitset (bitset ?fp)" by (simp add: New_fp_fields wf_New)
  qed
  then obtain fp' where r: "ProcessFile None ?fp 49 = (None, fp')"
    "UniqueCount fp' = of_nat (card (addrs S1_input))"
    by (auto simp: New_fp_fields S1_length members_New unique_New)
  have "card (addrs S1_input) = 3" by (simp add: S1_addrs)
  with r show ?thesis by simp
qed

theorem S1_unique_count_witness:
  "(1 :: int) \<le> 4
   \<and> fst (ProcessFile None (New_fp S1_input New 4) 49) = None
   \<and> UniqueCount (snd (ProcessFile None (New_fp S1_input New 4) 49)) = 3"
proof -
  have a: "(1 :: int) \<le> 4" by simp
  from S1_unique_count [OF a] a show ?thesis by blast
qed

end
